theory Spec2Isabelle
  imports Complex_Main "HOL-Library.Multiset"
begin

section \<open>Upload heap (uploadheap.go)\<close>

subsection \<open>Data\<close>

text \<open>
  \<open>uploadChunkID\<close> is the Go struct \<open>{fileUID string; index uint64}\<close>. Of an
  \<open>unfinishedUploadChunk\<close> the heap reads the id, the stuck flag and the two piece
  counters (Go \<open>int\<close>); the other fields are carried along untouched.
\<close>

record uploadChunkID =
  fileUID :: string
  index :: nat

record unfinishedUploadChunk =
  uuc_id :: uploadChunkID
  uuc_index :: nat
  uuc_length :: nat
  uuc_offset :: int
  uuc_memoryNeeded :: nat
  uuc_minimumPieces :: int
  uuc_piecesNeeded :: int
  uuc_stuck :: bool
  uuc_stuckRepair :: bool
  uuc_piecesCompleted :: int
  uuc_pieceUsage :: "bool list"
  uuc_unusedHosts :: "string set"
  uuc_fileEntry :: nat

type_synonym uploadChunkHeap = "unfinishedUploadChunk list"

record uploadHeap =
  heap :: uploadChunkHeap
  heapChunks :: "uploadChunkID set"
  repairingChunks :: "uploadChunkID set"

subsection \<open>The order relation\<close>

text \<open>
  \<open>Less\<close> compares \<open>float64(piecesCompleted)/float64(piecesNeeded)\<close>. A float64 has
  53 significant bits. The conversion of an int and the quotient of two float64 values
  are both rounded to the nearest number of that form, a tie going to the one whose
  significand is even. The quotient of two converted 64-bit ints lies between \<open>2^-63\<close>
  and \<open>2^63\<close> in absolute value when it is finite and not zero, so it neither overflows nor
  becomes subnormal, and the exponent needs no bound. A zero divisor gives an infinity, or
  NaN for zero over zero; \<open><\<close> on float64 is false as soon as one side is NaN.
\<close>

datatype float64 = NaN | NegInf | Fin real | PosInf

text \<open>The number of binary digits of a natural number.\<close>

fun bitlen :: "nat \<Rightarrow> nat" where
  "bitlen n = (if n = 0 then 0 else Suc (bitlen (n div 2)))"

declare bitlen.simps [simp del]

text \<open>The integer nearest to \<open>n / d\<close> for \<open>0 < d\<close>, the even one of two that are equally near.\<close>

definition roundHalfEven :: "int \<Rightarrow> int \<Rightarrow> int" where
  "roundHalfEven n d =
     (let q = n div d; r = n mod d
      in if 2 * r < d then q
         else if d < 2 * r then q + 1
         else if even q then q else q + 1)"

text \<open>
  \<open>float64(a)\<close> for an int \<open>a\<close>: the value is an integer again, \<open>a\<close> itself when \<open>a\<close>
  has at most 53 bits.
\<close>

definition float64_of_int :: "int \<Rightarrow> int" where
  "float64_of_int a =
     (let e = bitlen (nat \<bar>a\<bar>) - 53
      in roundHalfEven a (2 ^ e) * 2 ^ e)"

text \<open>
  The float64 quotient of two positive integer-valued float64 \<open>p\<close> and \<open>q\<close>: with \<open>e\<close>
  the exponent for which \<open>2^52 \<le> (p / q) / 2^e < 2^53\<close>, the result is \<open>m * 2^e\<close> for
  the integer \<open>m\<close> nearest to \<open>(p / q) / 2^e\<close>.
\<close>

definition float64_quot :: "int \<Rightarrow> int \<Rightarrow> real" where
  "float64_quot p q =
     (if p = 0 then 0
      else
        let k = int (bitlen (nat p)) - int (bitlen (nat q));
            e = (if q * 2 ^ nat k \<le> p * 2 ^ nat (- k) then k else k - 1) - 52;
            m = roundHalfEven (p * 2 ^ nat (- e)) (q * 2 ^ nat e)
        in real_of_int m * 2 ^ nat e / 2 ^ nat (- e))"

definition fdiv :: "int \<Rightarrow> int \<Rightarrow> float64" where
  "fdiv a b =
     (let x = float64_of_int a; y = float64_of_int b
      in if y = 0 then (if x = 0 then NaN else if 0 < x then PosInf else NegInf)
         else if (x < 0) = (y < 0) then Fin (float64_quot \<bar>x\<bar> \<bar>y\<bar>)
         else Fin (- float64_quot \<bar>x\<bar> \<bar>y\<bar>))"

fun flt :: "float64 \<Rightarrow> float64 \<Rightarrow> bool" where
  "flt NaN _ = False"
| "flt _ NaN = False"
| "flt NegInf NegInf = False"
| "flt NegInf _ = True"
| "flt (Fin x) (Fin y) = (x < y)"
| "flt (Fin x) PosInf = True"
| "flt (Fin x) NegInf = False"
| "flt PosInf _ = False"

definition ratio :: "unfinishedUploadChunk \<Rightarrow> float64" where
  "ratio c = fdiv (uuc_piecesCompleted c) (uuc_piecesNeeded c)"

definition chunk_less :: "unfinishedUploadChunk \<Rightarrow> unfinishedUploadChunk \<Rightarrow> bool" where
  "chunk_less a b =
     (if uuc_stuck a \<and> uuc_stuck b then flt (ratio a) (ratio b)
      else if uuc_stuck a then True
      else if uuc_stuck b then False
      else flt (ratio a) (ratio b))"

definition Less :: "uploadChunkHeap \<Rightarrow> nat \<Rightarrow> nat \<Rightarrow> bool" where
  "Less uch i j = chunk_less (uch ! i) (uch ! j)"

definition Swap :: "uploadChunkHeap \<Rightarrow> nat \<Rightarrow> nat \<Rightarrow> uploadChunkHeap" where
  "Swap uch i j = uch[i := uch ! j, j := uch ! i]"

definition Push :: "uploadChunkHeap \<Rightarrow> unfinishedUploadChunk \<Rightarrow> uploadChunkHeap" where
  "Push uch x = uch @ [x]"

text \<open>\<open>uploadChunkHeap.Pop\<close>: the last element and the slice without it.\<close>

definition Pop :: "uploadChunkHeap \<Rightarrow> unfinishedUploadChunk \<times> uploadChunkHeap" where
  "Pop uch = (last uch, butlast uch)"

subsection \<open>container/heap\<close>

text \<open>
  \<open>heap.down(h, i0, n)\<close> of the Go standard library, the loop as a recursion on the
  current index (its test for an overflow of \<open>2 * i + 1\<close> never fires on a slice that
  fits in memory and is left out). \<open>heap.Pop\<close> swaps the root with the last element,
  sifts the new root down within the first \<open>n\<close> elements and removes the last
  element.
\<close>

function down :: "uploadChunkHeap \<Rightarrow> nat \<Rightarrow> nat \<Rightarrow> uploadChunkHeap" where
  "down h i n =
     (let j1 = 2 * i + 1 in
      if n \<le> j1 then h
      else
        let j = (if j1 + 1 < n \<and> Less h (j1 + 1) j1 then j1 + 1 else j1) in
        if \<not> Less h j i then h else down (Swap h i j) j n)"
  by pat_completeness auto
termination
  by (relation "measure (\<lambda>(h, i, n). n - i)") (auto split: if_splits)

declare down.simps [simp del]

definition heap_Pop :: "uploadChunkHeap \<Rightarrow> unfinishedUploadChunk \<times> uploadChunkHeap" where
  "heap_Pop h = (let n = length h - 1 in Pop (down (Swap h 0 n) 0 n))"

subsection \<open>managedPush, managedPop\<close>

definition managedPush :: "uploadHeap \<Rightarrow> unfinishedUploadChunk \<Rightarrow> uploadHeap" where
  "managedPush uh uuc =
     (let exists1 = (uuc_id uuc \<in> heapChunks uh);
          exists2 = (uuc_id uuc \<in> repairingChunks uh)
      in if \<not> exists1 \<and> \<not> exists2
         then uh\<lparr>heapChunks := insert (uuc_id uuc) (heapChunks uh),
                 heap := Push (heap uh) uuc\<rparr>
         else uh)"

definition managedPop :: "uploadHeap \<Rightarrow> unfinishedUploadChunk option \<times> uploadHeap" where
  "managedPop uh =
     (if 0 < length (heap uh)
      then (case heap_Pop (heap uh) of
              (uc, h') \<Rightarrow> (Some uc, uh\<lparr>heap := h', heapChunks := heapChunks uh - {uuc_id uc}\<rparr>))
      else (None, uh))"

definition managedLen :: "uploadHeap \<Rightarrow> nat" where
  "managedLen uh = length (heap uh)"

text \<open>Sequences of heap operations, and the chunks a run of pops returns.\<close>

datatype heap_op = OpPush unfinishedUploadChunk | OpPop

fun run_op :: "uploadHeap \<Rightarrow> heap_op \<Rightarrow> uploadHeap" where
  "run_op uh (OpPush c) = managedPush uh c"
| "run_op uh OpPop = snd (managedPop uh)"

definition run_ops :: "uploadHeap \<Rightarrow> heap_op list \<Rightarrow> uploadHeap" where
  "run_ops uh ops = foldl run_op uh ops"

fun pops :: "nat \<Rightarrow> uploadHeap \<Rightarrow> unfinishedUploadChunk option list" where
  "pops 0 uh = []"
| "pops (Suc k) uh = (case managedPop uh of (r, uh') \<Rightarrow> r # pops k uh')"

definition newUploadHeap :: "uploadChunkID set \<Rightarrow> uploadHeap" where
  "newUploadHeap rc = \<lparr>heap = [], heapChunks = {}, repairingChunks = rc\<rparr>"

definition testChunk :: "string \<Rightarrow> nat \<Rightarrow> bool \<Rightarrow> int \<Rightarrow> int \<Rightarrow> unfinishedUploadChunk" where
  "testChunk uid i s pc pn =
     \<lparr>uuc_id = \<lparr>fileUID = uid, index = i\<rparr>, uuc_index = i, uuc_length = 0, uuc_offset = 0,
      uuc_memoryNeeded = 0, uuc_minimumPieces = 0, uuc_piecesNeeded = pn, uuc_stuck = s,
      uuc_stuckRepair = False, uuc_piecesCompleted = pc, uuc_pieceUsage = [],
      uuc_unusedHosts = {}, uuc_fileEntry = 0\<rparr>"

text \<open>The two facts the heap keeps about its id sets.\<close>

definition heap_inv :: "uploadHeap \<Rightarrow> bool" where
  "heap_inv uh \<longleftrightarrow>
     distinct (map uuc_id (heap uh)) \<and> set (map uuc_id (heap uh)) = heapChunks uh"

definition sets_disjoint :: "uploadHeap \<Rightarrow> bool" where
  "sets_disjoint uh \<longleftrightarrow> heapChunks uh \<inter> repairingChunks uh = {}"

section \<open>Machine integers\<close>

text \<open>
  Go's \<open>uint64\<close> values are naturals below \<open>2^64\<close>, \<open>int64\<close> values are integers
  in \<open>[-2^63, 2^63)\<close>; the operations below wrap as the machine does.
\<close>

definition u64_add :: "nat \<Rightarrow> nat \<Rightarrow> nat" where
  "u64_add a b = (a + b) mod 2 ^ 64"

definition u64_sub :: "nat \<Rightarrow> nat \<Rightarrow> nat" where
  "u64_sub a b = (a + 2 ^ 64 - b mod 2 ^ 64) mod 2 ^ 64"

definition u64_mul :: "nat \<Rightarrow> nat \<Rightarrow> nat" where
  "u64_mul a b = (a * b) mod 2 ^ 64"

definition u64_of_int :: "int \<Rightarrow> nat" where
  "u64_of_int x = nat (x mod 2 ^ 64)"

definition s64 :: "int \<Rightarrow> int" where
  "s64 x = (x + 2 ^ 63) mod 2 ^ 64 - 2 ^ 63"

section \<open>Downloads (download.go, snapshot.go)\<close>

subsection \<open>Errors\<close>

datatype error =
    ErrDownloadCancelled
  | ErrNoFile
  | ErrPastBoundary
  | ErrChunkPastBoundary
  | ErrAsyncHTTP
  | ErrDestinationWithHTTP
  | ErrNoDestination
  | ErrDestinationNotAbsolute
  | ErrOffsetEqualsFilesize
  | ErrOffsetGreaterFilesize
  | ErrOffsetLengthInvalid
  | ErrInterruptedByShutdown
  | ErrThreadGroupStopped
  | ErrExternal string
  | PanicDivideByZero
  | PanicIndexOutOfRange
  | PanicMakeSliceLen

subsection \<open>The file snapshot\<close>

record Piece =
  HostPubKey :: string
  MerkleRoot :: string

record Chunk =
  Pieces_of :: "Piece list list"

record ErasureCoder =
  MinPieces :: int
  NumPieces :: int
  SupportsPartialEncoding :: bool

record Snapshot =
  staticChunks :: "Chunk list"
  staticFileSize :: int
  staticPieceSize :: nat
  staticErasureCode :: ErasureCoder
  staticSiaPath :: string

definition ChunkSize :: "Snapshot \<Rightarrow> nat" where
  "ChunkSize s = u64_mul (staticPieceSize s) (u64_of_int (MinPieces (staticErasureCode s)))"

text \<open>Integer division by zero panics in Go.\<close>

definition ChunkIndexByOffset :: "Snapshot \<Rightarrow> nat \<Rightarrow> error + nat \<times> nat" where
  "ChunkIndexByOffset s off =
     (if ChunkSize s = 0 then Inl PanicDivideByZero
      else Inr (off div ChunkSize s, off mod ChunkSize s))"

definition NumChunks :: "Snapshot \<Rightarrow> nat" where
  "NumChunks s = length (staticChunks s)"

text \<open>
  Indexing a slice out of its range panics in Go. The planner also tests an error result
  of \<open>Pieces\<close>; the \<open>Pieces\<close> of this snapshot returns none, so that test has nothing to
  catch.
\<close>

definition Pieces :: "Snapshot \<Rightarrow> nat \<Rightarrow> error + Piece list list" where
  "Pieces s chunkIndex =
     (if chunkIndex < length (staticChunks s) then Inr (Pieces_of (staticChunks s ! chunkIndex))
      else Inl PanicIndexOutOfRange)"

definition Size :: "Snapshot \<Rightarrow> nat" where
  "Size s = u64_of_int (staticFileSize s)"

subsection \<open>The download object\<close>

text \<open>
  \<open>completeChan\<close> is only ever closed, so it is a flag. The functions registered with
  \<open>onComplete\<close> are the two closures of this file and whatever a caller passes; running
  one is recorded in \<open>executed\<close> together with the error it was given. What a function
  returns is only logged and is not part of the model.
\<close>

datatype completeFunc = SetEndTime | CloseDestination | CallerFunc nat

record download =
  atomicDataReceived :: nat
  atomicTotalDataTransferred :: nat
  chunksRemaining :: nat
  completeChan_closed :: bool
  err :: "error option"
  downloadCompleteFuncs :: "completeFunc list"
  executed :: "(completeFunc \<times> error option) list"
  endTime :: int
  staticStartTime :: int
  staticDestinationType :: string
  destinationString :: string
  staticLength :: nat
  staticOffset :: nat
  d_staticSiaPath :: string
  d_staticLatencyTarget :: int
  d_staticOverdrive :: int
  d_staticPriority :: nat

record downloadParams =
  dp_destinationType :: string
  dp_destinationString :: string
  dp_file :: "Snapshot option"
  dp_latencyTarget :: int
  dp_length :: nat
  dp_needsMemory :: bool
  dp_offset :: nat
  dp_overdrive :: int
  dp_priority :: nat

definition staticComplete :: "download \<Rightarrow> bool" where
  "staticComplete d = completeChan_closed d"

definition call :: "int \<Rightarrow> completeFunc \<Rightarrow> download \<Rightarrow> download" where
  "call now f d =
     (let d' = d\<lparr>executed := executed d @ [(f, err d)]\<rparr>
      in case f of SetEndTime \<Rightarrow> d'\<lparr>endTime := now\<rparr> | _ \<Rightarrow> d')"

text \<open>
  \<open>build.Critical\<close> is not part of these files. It reports a programming error and, in a
  debug build, panics; the first component of a result says whether it was raised. The
  download after the call is the second component: in a debug build the statements after
  the report are not run.
\<close>

definition markComplete :: "bool \<Rightarrow> int \<Rightarrow> download \<Rightarrow> bool \<times> download" where
  "markComplete debug now d =
     (if staticComplete d \<and> debug then (True, d)
      else
        let d1 = foldl (\<lambda>acc f. call now f acc) d (downloadCompleteFuncs d);
            d2 = d1\<lparr>downloadCompleteFuncs := []\<rparr>
        in if staticComplete d then (True, d2)
           else (False, d2\<lparr>completeChan_closed := True\<rparr>))"

definition managedFail :: "bool \<Rightarrow> int \<Rightarrow> download \<Rightarrow> error \<Rightarrow> bool \<times> download" where
  "managedFail debug now d e =
     (let complete = staticComplete d
      in if complete \<and> err d \<noteq> None then (False, d)
         else if complete \<and> err d = None then (True, d)
         else markComplete debug now (d\<lparr>err := Some e\<rparr>))"

definition managedCancel :: "bool \<Rightarrow> int \<Rightarrow> download \<Rightarrow> bool \<times> download" where
  "managedCancel debug now d = managedFail debug now d ErrDownloadCancelled"

definition onComplete :: "int \<Rightarrow> completeFunc \<Rightarrow> download \<Rightarrow> download" where
  "onComplete now f d =
     (if completeChan_closed d then call now f d
      else d\<lparr>downloadCompleteFuncs := downloadCompleteFuncs d @ [f]\<rparr>)"

definition Err :: "download \<Rightarrow> error option" where
  "Err d = err d"

subsection \<open>Workers and unfinished download chunks\<close>

record downloadPieceInfo =
  pi_index :: nat
  pi_root :: string

record worker =
  staticHostPubKey :: string
  ownedDownloadConsecutiveFailures :: int
  ownedDownloadRecentFailure :: int

record unfinishedDownloadChunk =
  erasureCode :: ErasureCoder
  staticChunkIndex :: nat
  staticChunkMap :: "string \<rightharpoonup> downloadPieceInfo"
  staticChunkSize :: nat
  staticFetchLength :: nat
  staticFetchOffset :: nat
  staticPieceSize_udc :: nat
  staticWriteOffset :: int
  staticLatencyTarget :: int
  staticNeedsMemory :: bool
  staticOverdrive :: int
  staticPriority :: nat
  completedPieces :: "bool list"
  physicalChunkData :: "nat list list"
  pieceUsage :: "bool list"
  piecesCompleted :: int
  piecesRegistered :: int
  workersRemaining :: int
  workersStandby :: "worker list"
  recoveriesLaunched :: nat

subsection \<open>The download planner\<close>

text \<open>
  The map from host key to piece of one chunk: the pieces are visited piece set by piece
  set and a later piece of the same host replaces an earlier one.
\<close>

definition chunkMapOf :: "Piece list list \<Rightarrow> (string \<rightharpoonup> downloadPieceInfo)" where
  "chunkMapOf pieces =
     foldl (\<lambda>m (pieceIndex, pieceSet).
              foldl (\<lambda>m' piece. m'(HostPubKey piece \<mapsto>
                                   \<lparr>pi_index = pieceIndex, pi_root = MerkleRoot piece\<rparr>))
                    m pieceSet)
           Map.empty (zip [0 ..< length pieces] pieces)"

fun chunkMapsOf :: "Snapshot \<Rightarrow> nat list \<Rightarrow> error + (string \<rightharpoonup> downloadPieceInfo) list" where
  "chunkMapsOf f [] = Inr []"
| "chunkMapsOf f (chunkIndex # rest) =
     (case Pieces f chunkIndex of
        Inl e \<Rightarrow> Inl e
      | Inr pieces \<Rightarrow>
          (case chunkMapsOf f rest of
             Inl e \<Rightarrow> Inl e
           | Inr ms \<Rightarrow> Inr (chunkMapOf pieces # ms)))"

text \<open>
  One chunk of the download. Its three slices are made with \<open>NumPieces()\<close> elements, and
  \<open>make\<close> panics when the length asked for is negative or does not fit an int. Running
  out of memory is not modelled.
\<close>

definition newChunk ::
  "downloadParams \<Rightarrow> Snapshot \<Rightarrow> nat \<Rightarrow> nat \<Rightarrow> nat \<Rightarrow> nat \<Rightarrow>
   (string \<rightharpoonup> downloadPieceInfo) \<Rightarrow> nat \<Rightarrow> int \<Rightarrow> error + unfinishedDownloadChunk" where
  "newChunk params f minChunk minChunkOffset maxChunk maxChunkOffset chunkMap i writeOffset =
     (if NumPieces (staticErasureCode f) < 0 then Inl PanicMakeSliceLen
      else
      let n = nat (NumPieces (staticErasureCode f));
          fetchOffset = (if i = minChunk then minChunkOffset else 0);
          fetchLength = (if i = maxChunk \<and> maxChunkOffset \<noteq> 0
                         then u64_sub maxChunkOffset fetchOffset
                         else u64_sub (ChunkSize f) fetchOffset)
      in Inr \<lparr>erasureCode = staticErasureCode f,
          staticChunkIndex = i,
          staticChunkMap = chunkMap,
          staticChunkSize = ChunkSize f,
          staticFetchLength = fetchLength,
          staticFetchOffset = fetchOffset,
          staticPieceSize_udc = staticPieceSize f,
          staticWriteOffset = writeOffset,
          staticLatencyTarget = s64 (dp_latencyTarget params + s64 (25 * int (u64_sub i minChunk))),
          staticNeedsMemory = dp_needsMemory params,
          staticOverdrive = dp_overdrive params,
          staticPriority = dp_priority params,
          completedPieces = replicate n False,
          physicalChunkData = replicate n [],
          pieceUsage = replicate n False,
          piecesCompleted = 0,
          piecesRegistered = 0,
          workersRemaining = 0,
          workersStandby = [],
          recoveriesLaunched = 0\<rparr>)"

text \<open>
  The queueing loop over the chunk indices \<open>minChunk .. maxChunk\<close>, carrying the write
  offset. Its result is the list of chunks handed to \<open>managedAddChunkToDownloadHeap\<close>, in
  order; each of them is followed by a signal on \<open>newDownloads\<close>. A panic ends the
  planner, whatever has been queued by then.
\<close>

fun queueChunks ::
  "downloadParams \<Rightarrow> Snapshot \<Rightarrow> nat \<Rightarrow> nat \<Rightarrow> nat \<Rightarrow> nat \<Rightarrow>
   (nat \<times> (string \<rightharpoonup> downloadPieceInfo)) list \<Rightarrow> int \<Rightarrow>
   error + unfinishedDownloadChunk list" where
  "queueChunks params f minChunk minChunkOffset maxChunk maxChunkOffset [] writeOffset = Inr []"
| "queueChunks params f minChunk minChunkOffset maxChunk maxChunkOffset ((i, m) # rest) writeOffset =
     (case newChunk params f minChunk minChunkOffset maxChunk maxChunkOffset m i writeOffset of
        Inl e \<Rightarrow> Inl e
      | Inr udc \<Rightarrow>
          (case queueChunks params f minChunk minChunkOffset maxChunk maxChunkOffset rest
                  (s64 (writeOffset + s64 (int (staticFetchLength udc)))) of
             Inl e \<Rightarrow> Inl e
           | Inr udcs \<Rightarrow> Inr (udc # udcs)))"

definition newDownload :: "int \<Rightarrow> downloadParams \<Rightarrow> Snapshot \<Rightarrow> download" where
  "newDownload now params f =
     \<lparr>atomicDataReceived = 0,
      atomicTotalDataTransferred = 0,
      chunksRemaining = 0,
      completeChan_closed = False,
      err = None,
      downloadCompleteFuncs = [],
      executed = [],
      endTime = 0,
      staticStartTime = now,
      staticDestinationType = dp_destinationType params,
      destinationString = dp_destinationString params,
      staticLength = dp_length params,
      staticOffset = dp_offset params,
      d_staticSiaPath = staticSiaPath f,
      d_staticLatencyTarget = dp_latencyTarget params,
      d_staticOverdrive = dp_overdrive params,
      d_staticPriority = dp_priority params\<rparr>"

text \<open>
  \<open>managedNewDownload\<close> returns the download and the chunks it queued. The parameters
  \<open>length\<close> and \<open>offset\<close> are \<open>uint64\<close>, so the two checks for negative values never
  fire and are left out. The slice of chunk maps is made with \<open>maxChunk - minChunk + 1\<close>
  elements, a \<open>uint64\<close>; \<open>make\<close> panics when that does not fit an int.
\<close>

definition managedNewDownload ::
  "bool \<Rightarrow> int \<Rightarrow> downloadParams \<Rightarrow> error + download \<times> unfinishedDownloadChunk list" where
  "managedNewDownload debug now params =
     (case dp_file params of
        None \<Rightarrow> Inl ErrNoFile
      | Some f \<Rightarrow>
          if Size f < u64_add (dp_offset params) (dp_length params) then Inl ErrPastBoundary
          else
            let d = onComplete now SetEndTime (newDownload now params f)
            in if staticLength d = 0 then Inr (snd (markComplete debug now d), [])
               else
                 (case ChunkIndexByOffset f (dp_offset params) of
                    Inl e \<Rightarrow> Inl e
                  | Inr (minChunk, minChunkOffset) \<Rightarrow>
                 (case ChunkIndexByOffset f (u64_add (dp_offset params) (dp_length params)) of
                    Inl e \<Rightarrow> Inl e
                  | Inr (maxChunk0, maxChunkOffset) \<Rightarrow>
                      let maxChunk = (if 0 < maxChunk0 \<and> maxChunkOffset = 0
                                      then maxChunk0 - 1 else maxChunk0)
                      in if minChunk = NumChunks f \<or> maxChunk = NumChunks f
                         then Inl ErrChunkPastBoundary
                         else if 2 ^ 63 \<le> u64_add (u64_sub maxChunk minChunk) 1
                           then Inl PanicMakeSliceLen
                         else
                           (case chunkMapsOf f [minChunk ..< Suc maxChunk] of
                              Inl e \<Rightarrow> Inl e
                            | Inr chunkMaps \<Rightarrow>
                                let d' = d\<lparr>chunksRemaining :=
                                             u64_add (chunksRemaining d)
                                               (u64_add (u64_sub maxChunk minChunk) 1)\<rparr>
                                in (case queueChunks params f minChunk minChunkOffset
                                              maxChunk maxChunkOffset
                                              (zip [minChunk ..< Suc maxChunk] chunkMaps) 0 of
                                      Inl e \<Rightarrow> Inl e
                                    | Inr udcs \<Rightarrow> Inr (d', udcs))))))"

subsection \<open>Renter.managedDownload and Renter.Download\<close>

text \<open>
  What the renter's \<open>managedDownload\<close> needs from outside these files is a parameter:
  opening the file entry and taking its snapshot, \<open>filepath.IsAbs\<close>, \<open>os.OpenFile\<close>,
  the constant \<open>destinationTypeSeekStream\<close>, whether the thread group has been stopped,
  and \<open>build.DEBUG\<close>. The bookkeeping calls on the file entry (\<open>Close\<close>,
  \<open>UpdateAccessTime\<close>) and the Content-Length header are not modelled; when the
  planner fails the returned error stands for its composition with the error of closing
  the destination.
\<close>

record RenterDownloadParameters =
  rp_Async :: bool
  rp_Httpwriter :: bool
  rp_Destination :: string
  rp_Length :: nat
  rp_Offset :: nat
  rp_SiaPath :: string

record fileEntry =
  entry_Size :: nat
  entry_Snapshot :: "error + Snapshot"

record renterEnv =
  fileSet_Open :: "string \<Rightarrow> error + fileEntry"
  IsAbs :: "string \<Rightarrow> bool"
  OpenFile :: "string \<Rightarrow> error option"
  destinationTypeSeekStream :: string
  tg_stopped :: bool
  build_DEBUG :: bool

text \<open>The length sentinel: a length of 0 asks for the rest of the file.\<close>

definition resolvedLength :: "fileEntry \<Rightarrow> RenterDownloadParameters \<Rightarrow> nat" where
  "resolvedLength entry p =
     (if rp_Length p = 0 then u64_sub (entry_Size entry) (rp_Offset p) else rp_Length p)"

definition Renter_managedDownload ::
  "renterEnv \<Rightarrow> int \<Rightarrow> RenterDownloadParameters \<Rightarrow>
   error + download \<times> unfinishedDownloadChunk list \<times> bool" where
  "Renter_managedDownload env now p =
     (case fileSet_Open env (rp_SiaPath p) of
        Inl e \<Rightarrow> Inl e
      | Inr entry \<Rightarrow>
          let isHTTPResp = rp_Httpwriter p in
          if rp_Async p \<and> isHTTPResp then Inl ErrAsyncHTTP
          else if isHTTPResp \<and> rp_Destination p \<noteq> [] then Inl ErrDestinationWithHTTP
          else if \<not> isHTTPResp \<and> rp_Destination p = [] then Inl ErrNoDestination
          else if rp_Destination p \<noteq> [] \<and> \<not> IsAbs env (rp_Destination p)
            then Inl ErrDestinationNotAbsolute
          else if rp_Offset p = entry_Size entry \<and> entry_Size entry \<noteq> 0
            then Inl ErrOffsetEqualsFilesize
          else if rp_Length p = 0 \<and> entry_Size entry < rp_Offset p
            then Inl ErrOffsetGreaterFilesize
          else if entry_Size entry < u64_add (rp_Offset p) (resolvedLength entry p)
            then Inl ErrOffsetLengthInvalid
          else
            (case (if isHTTPResp then None else OpenFile env (rp_Destination p)) of
               Some e \<Rightarrow> Inl e
             | None \<Rightarrow>
                 let destinationType = (if isHTTPResp then ''http stream'' else ''file'') in
                 (case entry_Snapshot entry of
                    Inl e \<Rightarrow> Inl e
                  | Inr snap \<Rightarrow>
                      (case managedNewDownload (build_DEBUG env) now
                              \<lparr>dp_destinationType = destinationType,
                               dp_destinationString = rp_Destination p,
                               dp_file = Some snap,
                               dp_latencyTarget = 25000 * 1000000,
                               dp_length = resolvedLength entry p,
                               dp_needsMemory = True,
                               dp_offset = rp_Offset p,
                               dp_overdrive = 3,
                               dp_priority = 5\<rparr> of
                         Inl e \<Rightarrow> Inl e
                       | Inr (d, udcs) \<Rightarrow>
                           Inr (onComplete now CloseDestination d, udcs,
                                destinationType \<noteq> destinationTypeSeekStream env)))))"

text \<open>
  \<open>Download\<close> waits on the download's \<open>completeChan\<close> and on the stop channel. When
  neither is ready the call blocks; when both are, Go's \<open>select\<close> takes either one
  (\<open>pick\<close>).
\<close>

datatype 'a blocking = Returns 'a | Blocks

definition Download ::
  "renterEnv \<Rightarrow> int \<Rightarrow> bool \<Rightarrow> bool \<Rightarrow> RenterDownloadParameters \<Rightarrow> error option blocking" where
  "Download env now stopAtSelect pick p =
     (if tg_stopped env then Returns (Some ErrThreadGroupStopped)
      else
        (case Renter_managedDownload env now p of
           Inl e \<Rightarrow> Returns (Some e)
         | Inr (d, udcs, inHistory) \<Rightarrow>
             if staticComplete d \<and> stopAtSelect
               then (if pick then Returns (Err d) else Returns (Some ErrInterruptedByShutdown))
             else if staticComplete d then Returns (Err d)
             else if stopAtSelect then Returns (Some ErrInterruptedByShutdown)
             else Blocks))"

text \<open>A download that has completed without error.\<close>

definition doneDownload :: download where
  "doneDownload =
     \<lparr>atomicDataReceived = 10, atomicTotalDataTransferred = 20, chunksRemaining = 0,
      completeChan_closed = True, err = None, downloadCompleteFuncs = [],
      executed = [(SetEndTime, None), (CloseDestination, None)], endTime = 5,
      staticStartTime = 1, staticDestinationType = ''file'', destinationString = ''/tmp/f'',
      staticLength = 10, staticOffset = 0, d_staticSiaPath = ''f'',
      d_staticLatencyTarget = 0, d_staticOverdrive = 3, d_staticPriority = 5\<rparr>"

text \<open>A zero-byte file, a renter that serves it, and the request for all of it.\<close>

definition emptySnapshot :: Snapshot where
  "emptySnapshot =
     \<lparr>staticChunks = [], staticFileSize = 0, staticPieceSize = 4096,
      staticErasureCode = \<lparr>MinPieces = 1, NumPieces = 2, SupportsPartialEncoding = False\<rparr>,
      staticSiaPath = ''empty''\<rparr>"

definition emptyFileEnv :: renterEnv where
  "emptyFileEnv =
     \<lparr>fileSet_Open = (\<lambda>path. if path = ''empty''
                                then Inr \<lparr>entry_Size = 0, entry_Snapshot = Inr emptySnapshot\<rparr>
                                else Inl (ErrExternal ''no such file'')),
      IsAbs = (\<lambda>path. take 1 path = ''/''),
      OpenFile = (\<lambda>path. None),
      destinationTypeSeekStream = ''seekstream'',
      tg_stopped = False,
      build_DEBUG = True\<rparr>"

definition wholeFileRequest :: RenterDownloadParameters where
  "wholeFileRequest =
     \<lparr>rp_Async = False, rp_Httpwriter = False, rp_Destination = ''/tmp/out'',
      rp_Length = 0, rp_Offset = 0, rp_SiaPath = ''empty''\<rparr>"

definition zeroLengthParams :: downloadParams where
  "zeroLengthParams =
     \<lparr>dp_destinationType = ''file'', dp_destinationString = ''/tmp/out'',
      dp_file = Some emptySnapshot, dp_latencyTarget = 25000 * 1000000, dp_length = 0,
      dp_needsMemory = True, dp_offset = 0, dp_overdrive = 3, dp_priority = 5\<rparr>"

text \<open>The byte window of the file that a chunk fetches, and a file of three chunks.\<close>

definition windowStart :: "unfinishedDownloadChunk \<Rightarrow> nat" where
  "windowStart u = staticChunkIndex u * staticChunkSize u + staticFetchOffset u"

definition windowEnd :: "unfinishedDownloadChunk \<Rightarrow> nat" where
  "windowEnd u = windowStart u + staticFetchLength u"

definition threeChunkSnapshot :: Snapshot where
  "threeChunkSnapshot =
     \<lparr>staticChunks =
        replicate 3 \<lparr>Pieces_of = [[\<lparr>HostPubKey = ''h1'', MerkleRoot = ''r1''\<rparr>],
                                   [\<lparr>HostPubKey = ''h2'', MerkleRoot = ''r2''\<rparr>]]\<rparr>,
      staticFileSize = 250, staticPieceSize = 50,
      staticErasureCode = \<lparr>MinPieces = 2, NumPieces = 2, SupportsPartialEncoding = False\<rparr>,
      staticSiaPath = ''three''\<rparr>"

definition firstChunkRequest :: downloadParams where
  "firstChunkRequest =
     \<lparr>dp_destinationType = ''file'', dp_destinationString = ''/tmp/out'',
      dp_file = Some threeChunkSnapshot, dp_latencyTarget = 0, dp_length = 100,
      dp_needsMemory = True, dp_offset = 0, dp_overdrive = 3, dp_priority = 5\<rparr>"

section \<open>Workers on a download chunk (workerdownload.go)\<close>

text \<open>
  The counters of a chunk are Go \<open>int\<close>s; they count pieces and workers and are modelled
  as integers without a bound. The constants \<open>downloadFailureCooldown\<close> and
  \<open>maxConsecutivePenalty\<close> are declared elsewhere and are parameters; times and durations
  are \<open>int64\<close> nanoseconds.
\<close>

record workerConsts =
  downloadFailureCooldown :: int
  maxConsecutivePenalty :: int

function cooldownLoop :: "int \<Rightarrow> int \<Rightarrow> int \<Rightarrow> int \<Rightarrow> int" where
  "cooldownLoop i failures penalty requiredCooldown =
     (if i < failures \<and> i < penalty
      then cooldownLoop (i + 1) failures penalty (s64 (requiredCooldown * 2))
      else requiredCooldown)"
  by pat_completeness auto
termination
  by (relation "measure (\<lambda>(i, failures, penalty, r). nat (failures - i))") auto

declare cooldownLoop.simps [simp del]

definition ownedOnDownloadCooldown :: "workerConsts \<Rightarrow> int \<Rightarrow> worker \<Rightarrow> bool" where
  "ownedOnDownloadCooldown k now w =
     (let requiredCooldown =
            cooldownLoop 0 (ownedDownloadConsecutiveFailures w) (maxConsecutivePenalty k)
              (downloadFailureCooldown k)
      in now < ownedDownloadRecentFailure w + requiredCooldown)"

text \<open>
  Modelled from the spec: \<open>managedRemoveWorker\<close> is defined in a file that is not part of
  these sources. The spec's drop path is "decrement \<open>workers_remaining\<close>, leave standby
  membership untouched".
\<close>

definition managedRemoveWorker :: "unfinishedDownloadChunk \<Rightarrow> unfinishedDownloadChunk" where
  "managedRemoveWorker udc = udc\<lparr>workersRemaining := workersRemaining udc - 1\<rparr>"

text \<open>
  Modelled from the spec: \<open>markPieceCompleted\<close> is defined in a file that is not part of
  these sources. The spec's chunk has \<open>completed_pieces[N]\<close> and a worker that has
  fetched its piece "increments \<open>pieces_completed\<close>".
\<close>

definition markPieceCompleted :: "nat \<Rightarrow> unfinishedDownloadChunk \<Rightarrow> unfinishedDownloadChunk" where
  "markPieceCompleted pieceIndex udc =
     udc\<lparr>completedPieces := (completedPieces udc)[pieceIndex := True],
         piecesCompleted := piecesCompleted udc + 1\<rparr>"

text \<open>
  The piece a worker holds of a chunk. Reading the chunk map at a host without a piece
  gives Go's zero value, whose index is 0.
\<close>

definition pieceDataOf :: "worker \<Rightarrow> unfinishedDownloadChunk \<Rightarrow> downloadPieceInfo" where
  "pieceDataOf w udc =
     (case staticChunkMap udc (staticHostPubKey w) of
        None \<Rightarrow> \<lparr>pi_index = 0, pi_root = []\<rparr>
      | Some p \<Rightarrow> p)"

definition workerHasPiece :: "worker \<Rightarrow> unfinishedDownloadChunk \<Rightarrow> bool" where
  "workerHasPiece w udc = (staticChunkMap udc (staticHostPubKey w) \<noteq> None)"

text \<open>
  \<open>ownedProcessDownloadChunk\<close> returns the chunk or nil (the flag) and leaves the chunk in
  a new state. Indexing a slice out of range panics. The download the chunk belongs to is
  an argument, since the chunk only points to it.
\<close>

definition ownedProcessDownloadChunk ::
  "workerConsts \<Rightarrow> int \<Rightarrow> download \<Rightarrow> worker \<Rightarrow> unfinishedDownloadChunk \<Rightarrow>
   error + bool \<times> unfinishedDownloadChunk" where
  "ownedProcessDownloadChunk k now d w udc =
     (let chunkComplete =
            (MinPieces (erasureCode udc) \<le> piecesCompleted udc \<or> staticComplete d);
          chunkFailed =
            (piecesCompleted udc + workersRemaining udc < MinPieces (erasureCode udc));
          pieceData = pieceDataOf w udc
      in if length (completedPieces udc) \<le> pi_index pieceData then Inl PanicIndexOutOfRange
         else
           let pieceCompleted = completedPieces udc ! pi_index pieceData
           in if chunkComplete \<or> chunkFailed \<or> ownedOnDownloadCooldown k now w \<or>
                 \<not> workerHasPiece w udc \<or> pieceCompleted
              then Inr (False, managedRemoveWorker udc)
              else if length (pieceUsage udc) \<le> pi_index pieceData
                then Inl PanicIndexOutOfRange
              else
                let meetsExtraCriteria = True;
                    pieceTaken = pieceUsage udc ! pi_index pieceData;
                    piecesInProgress = piecesRegistered udc + piecesCompleted udc;
                    desiredPiecesInProgress =
                      MinPieces (erasureCode udc) + staticOverdrive udc;
                    workersDesired =
                      (piecesInProgress < desiredPiecesInProgress \<and> \<not> pieceTaken)
                in if workersDesired \<and> meetsExtraCriteria
                   then Inr (True,
                             udc\<lparr>piecesRegistered := piecesRegistered udc + 1,
                                 pieceUsage := (pieceUsage udc)[pi_index pieceData := True]\<rparr>)
                   else Inr (False, udc\<lparr>workersStandby := workersStandby udc @ [w]\<rparr>))"

definition managedUnregisterWorker ::
  "worker \<Rightarrow> unfinishedDownloadChunk \<Rightarrow> error + unfinishedDownloadChunk" where
  "managedUnregisterWorker w udc =
     (if length (pieceUsage udc) \<le> pi_index (pieceDataOf w udc) then Inl PanicIndexOutOfRange
      else Inr (udc\<lparr>piecesRegistered := piecesRegistered udc - 1,
                    pieceUsage := (pieceUsage udc)[pi_index (pieceDataOf w udc) := False]\<rparr>))"

text \<open>
  The part of \<open>managedDownload\<close> that runs once the piece has been fetched and decrypted:
  from taking the chunk lock to the deferred \<open>managedRemoveWorker\<close>. \<open>tgAdd\<close> says
  whether the renter's thread group admits the recovery thread (it refuses while the
  renter shuts down). Each \<open>go udc.threadedRecoverLogicalData()\<close> is counted in
  \<open>recoveriesLaunched\<close>.
\<close>

definition completePiece ::
  "bool \<Rightarrow> nat list \<Rightarrow> worker \<Rightarrow> unfinishedDownloadChunk \<times> download \<Rightarrow>
   error + unfinishedDownloadChunk \<times> download" where
  "completePiece tgAdd decryptedPiece w s =
     (case s of (udc0, d0) \<Rightarrow>
        let pieceIndex = pi_index (pieceDataOf w udc0);
            minPieces = MinPieces (erasureCode udc0);
            d1 = d0\<lparr>atomicTotalDataTransferred :=
                       u64_add (atomicTotalDataTransferred d0) (staticPieceSize_udc udc0)\<rparr>
        in if length (completedPieces udc0) \<le> pieceIndex then Inl PanicIndexOutOfRange
           else
             let udc1 = markPieceCompleted pieceIndex udc0;
                 udc2 = udc1\<lparr>piecesRegistered := piecesRegistered udc1 - 1\<rparr>
             in if piecesCompleted udc2 \<le> minPieces \<and> u64_of_int minPieces = 0
                  then Inl PanicDivideByZero
                else if piecesCompleted udc2 \<le> minPieces \<and>
                        length (physicalChunkData udc2) \<le> pieceIndex
                  then Inl PanicIndexOutOfRange
                else
                  let (udc3, d3) =
                        (if piecesCompleted udc2 \<le> minPieces
                         then (udc2\<lparr>physicalChunkData :=
                                       (physicalChunkData udc2)[pieceIndex := decryptedPiece]\<rparr>,
                               d1\<lparr>atomicDataReceived :=
                                     u64_add (atomicDataReceived d1)
                                       (staticFetchLength udc2 div u64_of_int minPieces)\<rparr>)
                         else (udc2, d1))
                  in if piecesCompleted udc3 = minPieces
                     then
                       let addedReceivedData =
                             u64_mul (u64_of_int minPieces)
                               (staticFetchLength udc3 div u64_of_int minPieces);
                           d4 = d3\<lparr>atomicDataReceived :=
                                      u64_add (atomicDataReceived d3)
                                        (u64_sub (staticFetchLength udc3) addedReceivedData)\<rparr>
                       in if \<not> tgAdd then Inr (managedRemoveWorker udc3, d4)
                          else Inr (managedRemoveWorker
                                      (udc3\<lparr>recoveriesLaunched := recoveriesLaunched udc3 + 1\<rparr>),
                                    d4)
                     else Inr (managedRemoveWorker udc3, d3))"

text \<open>
  The failure path: unregister, then the deferred \<open>managedRemoveWorker\<close>. When the
  failure is in decrypting, the piece has been downloaded and counts as transferred.
\<close>

definition failPiece ::
  "bool \<Rightarrow> worker \<Rightarrow> unfinishedDownloadChunk \<times> download \<Rightarrow>
   error + unfinishedDownloadChunk \<times> download" where
  "failPiece transferred w s =
     (case s of (udc, d) \<Rightarrow>
        let d' = (if transferred
                  then d\<lparr>atomicTotalDataTransferred :=
                           u64_add (atomicTotalDataTransferred d) (staticPieceSize_udc udc)\<rparr>
                  else d)
        in case managedUnregisterWorker w udc of
             Inl e \<Rightarrow> Inl e
           | Inr udc' \<Rightarrow> Inr (managedRemoveWorker udc', d'))"

text \<open>
  \<open>managedDownload\<close> of one worker, run without interruption. What the host and the
  decryption deliver is the argument \<open>fetched\<close>.
\<close>

datatype fetchResult = DownloaderFailed | DownloadFailed | DecryptFailed | Fetched "nat list"

definition worker_managedDownload ::
  "workerConsts \<Rightarrow> int \<Rightarrow> bool \<Rightarrow> fetchResult \<Rightarrow> worker \<Rightarrow>
   unfinishedDownloadChunk \<times> download \<Rightarrow> error + unfinishedDownloadChunk \<times> download" where
  "worker_managedDownload k now tgAdd fetched w s =
     (case s of (udc, d) \<Rightarrow>
        (case ownedProcessDownloadChunk k now d w udc of
           Inl e \<Rightarrow> Inl e
         | Inr (False, udc') \<Rightarrow> Inr (udc', d)
         | Inr (True, udc') \<Rightarrow>
             (case fetched of
                DownloaderFailed \<Rightarrow> failPiece False w (udc', d)
              | DownloadFailed \<Rightarrow> failPiece False w (udc', d)
              | DecryptFailed \<Rightarrow> failPiece True w (udc', d)
              | Fetched piece \<Rightarrow> completePiece tgAdd piece w (udc', d))))"

text \<open>
  The states a chunk reaches while workers register, complete and fail in any order. A
  worker completes or fails only while it holds a registration, which the set
  \<open>registered\<close> records. \<open>mayRefuse\<close> says whether the thread group may refuse the
  recovery thread.
\<close>

record chunkState =
  chunk :: unfinishedDownloadChunk
  dl :: download
  registered :: "string set"

definition freshChunk :: "unfinishedDownloadChunk \<Rightarrow> bool" where
  "freshChunk udc \<longleftrightarrow>
     piecesCompleted udc = 0 \<and> piecesRegistered udc = 0 \<and> recoveriesLaunched udc = 0"

inductive reachable :: "workerConsts \<Rightarrow> bool \<Rightarrow> chunkState \<Rightarrow> bool"
  for k :: workerConsts and mayRefuse :: bool where
  start: "freshChunk udc \<Longrightarrow> reachable k mayRefuse \<lparr>chunk = udc, dl = d, registered = {}\<rparr>"
| process:
    "reachable k mayRefuse s \<Longrightarrow> staticHostPubKey w \<notin> registered s \<Longrightarrow>
     ownedProcessDownloadChunk k now (dl s) w (chunk s) = Inr (ret, udc') \<Longrightarrow>
     reachable k mayRefuse
       (s\<lparr>chunk := udc',
          registered := (if ret then insert (staticHostPubKey w) (registered s)
                         else registered s)\<rparr>)"
| complete:
    "reachable k mayRefuse s \<Longrightarrow> staticHostPubKey w \<in> registered s \<Longrightarrow>
     tgAdd \<or> mayRefuse \<Longrightarrow>
     completePiece tgAdd piece w (chunk s, dl s) = Inr (udc', d') \<Longrightarrow>
     reachable k mayRefuse
       (s\<lparr>chunk := udc', dl := d', registered := registered s - {staticHostPubKey w}\<rparr>)"
| fail:
    "reachable k mayRefuse s \<Longrightarrow> staticHostPubKey w \<in> registered s \<Longrightarrow>
     failPiece transferred w (chunk s, dl s) = Inr (udc', d') \<Longrightarrow>
     reachable k mayRefuse
       (s\<lparr>chunk := udc', dl := d', registered := registered s - {staticHostPubKey w}\<rparr>)"

text \<open>
  The three outcomes of processing a chunk as the specification words them, to be
  compared with \<open>ownedProcessDownloadChunk\<close>.
\<close>

definition spec_drop :: "workerConsts \<Rightarrow> int \<Rightarrow> download \<Rightarrow> worker \<Rightarrow> unfinishedDownloadChunk \<Rightarrow> bool" where
  "spec_drop k now d w udc \<longleftrightarrow>
     MinPieces (erasureCode udc) \<le> piecesCompleted udc \<or> staticComplete d \<or>
     piecesCompleted udc + workersRemaining udc < MinPieces (erasureCode udc) \<or>
     ownedOnDownloadCooldown k now w \<or>
     staticChunkMap udc (staticHostPubKey w) = None \<or>
     completedPieces udc ! pi_index (pieceDataOf w udc)"

definition spec_needed :: "unfinishedDownloadChunk \<Rightarrow> int" where
  "spec_needed udc =
     MinPieces (erasureCode udc) + staticOverdrive udc -
     (piecesRegistered udc + piecesCompleted udc)"

definition spec_processDownloadChunk ::
  "workerConsts \<Rightarrow> int \<Rightarrow> download \<Rightarrow> worker \<Rightarrow> unfinishedDownloadChunk \<Rightarrow>
   bool \<times> unfinishedDownloadChunk" where
  "spec_processDownloadChunk k now d w udc =
     (if spec_drop k now d w udc
        then (False, udc\<lparr>workersRemaining := workersRemaining udc - 1\<rparr>)
      else if 0 < spec_needed udc \<and> \<not> pieceUsage udc ! pi_index (pieceDataOf w udc)
        then (True, udc\<lparr>piecesRegistered := piecesRegistered udc + 1,
                        pieceUsage := (pieceUsage udc)[pi_index (pieceDataOf w udc) := True]\<rparr>)
      else (False, udc\<lparr>workersStandby := workersStandby udc @ [w]\<rparr>))"

text \<open>A chunk with two pieces on two hosts, one of them enough to recover it.\<close>

definition demoConsts :: workerConsts where
  "demoConsts = \<lparr>downloadFailureCooldown = 1000000000, maxConsecutivePenalty = 10\<rparr>"

definition demoWorker :: "string \<Rightarrow> worker" where
  "demoWorker h =
     \<lparr>staticHostPubKey = h, ownedDownloadConsecutiveFailures = 0,
      ownedDownloadRecentFailure = 0\<rparr>"

definition demoChunk :: unfinishedDownloadChunk where
  "demoChunk =
     \<lparr>erasureCode = \<lparr>MinPieces = 1, NumPieces = 2, SupportsPartialEncoding = False\<rparr>,
      staticChunkIndex = 0,
      staticChunkMap = [''h1'' \<mapsto> \<lparr>pi_index = 0, pi_root = ''r1''\<rparr>,
                        ''h2'' \<mapsto> \<lparr>pi_index = 1, pi_root = ''r2''\<rparr>],
      staticChunkSize = 100, staticFetchLength = 100, staticFetchOffset = 0,
      staticPieceSize_udc = 100, staticWriteOffset = 0, staticLatencyTarget = 0,
      staticNeedsMemory = True, staticOverdrive = 0, staticPriority = 5,
      completedPieces = [False, False], physicalChunkData = [[], []],
      pieceUsage = [False, False], piecesCompleted = 0, piecesRegistered = 0,
      workersRemaining = 2, workersStandby = [], recoveriesLaunched = 0\<rparr>"

definition demoRegistered :: unfinishedDownloadChunk where
  "demoRegistered = demoChunk\<lparr>piecesRegistered := 1, pieceUsage := [True, False]\<rparr>"

definition demoDl :: download where
  "demoDl = newDownload 0 firstChunkRequest threeChunkSnapshot"

definition demoStart :: chunkState where
  "demoStart = \<lparr>chunk = demoChunk, dl = demoDl, registered = {}\<rparr>"

definition demoAfter :: "bool \<Rightarrow> chunkState" where
  "demoAfter tgAdd =
     (case completePiece tgAdd [7] (demoWorker ''h1'') (demoRegistered, demoDl) of
        Inr (u, d) \<Rightarrow> \<lparr>chunk = u, dl = d, registered = {}\<rparr>
      | Inl e \<Rightarrow> demoStart)"

section \<open>Building unfinished upload chunks (uploadheap.go)\<close>

text \<open>
  A file entry as \<open>buildUnfinishedChunks\<close> reads it. Host keys are compared through their
  string form, so a key is its string. The renter supplies the size of the worker pool,
  the contract utility of a host (when the contractor knows the host) and
  \<open>build.DEBUG\<close>; \<open>build.Critical\<close> panics in a debug build. Whether the metadata
  store accepts an update is \<open>storeWritable\<close>. What the function does to file entries,
  and the warning it logs for an update that failed, is a list of events.
\<close>

record siaFileEntry =
  fe_UID :: string
  fe_ChunkSize :: nat
  fe_PieceSize :: nat
  fe_ErasureCode :: ErasureCoder
  fe_Overhead :: nat
  fe_stuck :: "bool list"
  fe_HostPublicKeys :: "string list"
  fe_pieces :: "string list list list"

record ContractUtility =
  GoodForUpload :: bool
  GoodForRenew :: bool

record buildEnv =
  workerPoolLen :: int
  contractUtility :: "string \<rightharpoonup> ContractUtility"
  zeroKey :: string
  DEBUG :: bool
  storeWritable :: bool

datatype buildEvent =
  EvMarkAllChunksAsStuck nat | EvWarnMarkStuck | EvClose nat | EvCritical

datatype repairTarget = targetError | targetStuckChunks | targetUnstuckChunks

datatype build_error =
  BuildPanicCritical | BuildPanicIndexOutOfRange | BuildPanicMakeSliceLen

text \<open>
  Modelled from the spec: \<open>MarkAllChunksAsStuck\<close> belongs to the file metadata store,
  which is not part of these sources. The spec's store offers \<open>mark_stuck(chunk_idx,
  bool)\<close>, the repair loop is to "mark all its chunks stuck", and file metadata is
  persisted through a write-ahead log. The call returns an error, which is \<open>None\<close> here:
  the update could not be persisted, and nothing is said about the file then.
\<close>

definition MarkAllChunksAsStuck :: "bool \<Rightarrow> siaFileEntry \<Rightarrow> siaFileEntry option" where
  "MarkAllChunksAsStuck writable e =
     (if writable then Some (e\<lparr>fe_stuck := replicate (length (fe_stuck e)) True\<rparr>) else None)"

definition StuckChunkByIndex :: "siaFileEntry \<Rightarrow> nat \<Rightarrow> build_error + bool" where
  "StuckChunkByIndex e i =
     (if i < length (fe_stuck e) then Inr (fe_stuck e ! i) else Inl BuildPanicIndexOutOfRange)"

definition entryPieces :: "siaFileEntry \<Rightarrow> nat \<Rightarrow> string list list option" where
  "entryPieces e i = (if i < length (fe_pieces e) then Some (fe_pieces e ! i) else None)"

text \<open>The first loop: the positions whose chunk has the targeted stuck status.\<close>

fun assembleIndexes ::
  "repairTarget \<Rightarrow> (nat \<times> siaFileEntry) list \<Rightarrow> build_error + nat list \<times> buildEvent list" where
  "assembleIndexes target [] = Inr ([], [])"
| "assembleIndexes target ((i, entry) # rest) =
     (case StuckChunkByIndex entry i of
        Inl e \<Rightarrow> Inl e
      | Inr s \<Rightarrow>
          (case assembleIndexes target rest of
             Inl e \<Rightarrow> Inl e
           | Inr (chunkIndexes, evs) \<Rightarrow>
               if (target = targetStuckChunks) \<noteq> s then Inr (chunkIndexes, EvClose i # evs)
               else Inr (i # chunkIndexes, evs)))"

definition newUnfinishedChunk ::
  "string set \<Rightarrow> nat \<Rightarrow> siaFileEntry \<Rightarrow> nat \<Rightarrow> bool \<Rightarrow> unfinishedUploadChunk" where
  "newUnfinishedChunk hosts i entry idx s =
     (let ec = fe_ErasureCode entry
      in \<lparr>uuc_id = \<lparr>fileUID = fe_UID entry, index = idx\<rparr>,
          uuc_index = idx,
          uuc_length = fe_ChunkSize entry,
          uuc_offset = s64 (int (u64_mul idx (fe_ChunkSize entry))),
          uuc_memoryNeeded =
            u64_add
              (u64_mul (fe_PieceSize entry) (u64_of_int (NumPieces ec + MinPieces ec)))
              (u64_mul (u64_of_int (NumPieces ec)) (fe_Overhead entry)),
          uuc_minimumPieces = MinPieces ec,
          uuc_piecesNeeded = NumPieces ec,
          uuc_stuck = s,
          uuc_stuckRepair = False,
          uuc_piecesCompleted = 0,
          uuc_pieceUsage = replicate (nat (NumPieces ec)) False,
          uuc_unusedHosts = hosts,
          uuc_fileEntry = i\<rparr>)"

text \<open>
  The second loop builds the chunk at position \<open>i\<close> of the result from the entry at the
  same position \<open>i\<close> of \<open>entrys\<close> and the chunk index gathered there. The two slices of
  a chunk are made with \<open>NumPieces()\<close> elements, and \<open>make\<close> panics on a negative length.
\<close>

fun assembleChunks ::
  "buildEnv \<Rightarrow> string set \<Rightarrow> siaFileEntry list \<Rightarrow> (nat \<times> nat) list \<Rightarrow>
   build_error + unfinishedUploadChunk list \<times> buildEvent list" where
  "assembleChunks env hosts entrys [] = Inr ([], [])"
| "assembleChunks env hosts entrys ((i, idx) # rest) =
     (if length entrys \<le> i then Inl BuildPanicIndexOutOfRange
      else if fe_UID (entrys ! i) = [] \<and> DEBUG env then Inl BuildPanicCritical
      else
        (case StuckChunkByIndex (entrys ! i) idx of
           Inl e \<Rightarrow> Inl e
         | Inr s \<Rightarrow>
             if NumPieces (fe_ErasureCode (entrys ! i)) < 0 then Inl BuildPanicMakeSliceLen
             else
             (case assembleChunks env hosts entrys rest of
                Inl e \<Rightarrow> Inl e
              | Inr (cs, evs) \<Rightarrow>
                  Inr (newUnfinishedChunk hosts i (entrys ! i) idx s # cs,
                       (if fe_UID (entrys ! i) = [] then [EvCritical] else []) @ evs))))"

text \<open>
  The third loop: one piece of a chunk. A host that holds the piece counts only when the
  contractor knows it and its contract is good for renewal.
\<close>

definition usePiece ::
  "buildEnv \<Rightarrow> string set \<Rightarrow> nat \<Rightarrow> unfinishedUploadChunk \<Rightarrow> string \<Rightarrow>
   build_error + unfinishedUploadChunk" where
  "usePiece env pks pieceIndex c hostKey =
     (if hostKey \<notin> pks \<and> DEBUG env then Inl BuildPanicCritical
      else
        let pk = (if hostKey \<in> pks then hostKey else zeroKey env)
        in case contractUtility env pk of
             None \<Rightarrow> Inr c
           | Some u \<Rightarrow>
               if \<not> GoodForRenew u then Inr c
               else if length (uuc_pieceUsage c) \<le> pieceIndex
                 then Inl BuildPanicIndexOutOfRange
               else
                 let exists = (pk \<in> uuc_unusedHosts c);
                     redundantPiece = uuc_pieceUsage c ! pieceIndex
                 in if exists \<and> \<not> redundantPiece
                    then Inr (c\<lparr>uuc_pieceUsage := (uuc_pieceUsage c)[pieceIndex := True],
                                 uuc_piecesCompleted := uuc_piecesCompleted c + 1,
                                 uuc_unusedHosts := uuc_unusedHosts c - {pk}\<rparr>)
                    else if exists
                      then Inr (c\<lparr>uuc_unusedHosts := uuc_unusedHosts c - {pk}\<rparr>)
                    else Inr c)"

fun usePieceSet ::
  "buildEnv \<Rightarrow> string set \<Rightarrow> nat \<Rightarrow> unfinishedUploadChunk \<Rightarrow> string list \<Rightarrow>
   build_error + unfinishedUploadChunk" where
  "usePieceSet env pks pieceIndex c [] = Inr c"
| "usePieceSet env pks pieceIndex c (hostKey # rest) =
     (case usePiece env pks pieceIndex c hostKey of
        Inl e \<Rightarrow> Inl e
      | Inr c' \<Rightarrow> usePieceSet env pks pieceIndex c' rest)"

fun usePieces ::
  "buildEnv \<Rightarrow> string set \<Rightarrow> unfinishedUploadChunk \<Rightarrow> (nat \<times> string list) list \<Rightarrow>
   build_error + unfinishedUploadChunk" where
  "usePieces env pks c [] = Inr c"
| "usePieces env pks c ((pieceIndex, pieceSet) # rest) =
     (case usePieceSet env pks pieceIndex c pieceSet of
        Inl e \<Rightarrow> Inl e
      | Inr c' \<Rightarrow> usePieces env pks c' rest)"

text \<open>
  The loop over the chunks; a chunk whose pieces cannot be read ends the whole build with
  no chunk returned (\<open>None\<close>).
\<close>

fun markUsedHosts ::
  "buildEnv \<Rightarrow> string set \<Rightarrow> siaFileEntry \<Rightarrow> (nat \<times> unfinishedUploadChunk) list \<Rightarrow>
   build_error + unfinishedUploadChunk list option" where
  "markUsedHosts env pks entry0 [] = Inr (Some [])"
| "markUsedHosts env pks entry0 ((idx, c) # rest) =
     (case entryPieces entry0 idx of
        None \<Rightarrow> Inr None
      | Some pieces \<Rightarrow>
          (case usePieces env pks c (zip [0 ..< length pieces] pieces) of
             Inl e \<Rightarrow> Inl e
           | Inr c' \<Rightarrow>
               (case markUsedHosts env pks entry0 rest of
                  Inl e \<Rightarrow> Inl e
                | Inr None \<Rightarrow> Inr None
                | Inr (Some cs) \<Rightarrow> Inr (Some (c' # cs)))))"

text \<open>The last loop keeps the chunks that still miss pieces and closes the others' entries.\<close>

fun incomplete :: "unfinishedUploadChunk list \<Rightarrow> unfinishedUploadChunk list \<times> buildEvent list" where
  "incomplete [] = ([], [])"
| "incomplete (c # rest) =
     (case incomplete rest of
        (cs, evs) \<Rightarrow>
          if uuc_piecesCompleted c < uuc_piecesNeeded c then (c # cs, evs)
          else (cs, EvClose (uuc_fileEntry c) # evs))"

text \<open>
  \<open>buildUnfinishedChunks\<close> returns the chunks, the events, and the first entry's file
  when it has been marked stuck. An error of \<open>MarkAllChunksAsStuck\<close> is logged and the
  function goes on as without it.
\<close>

definition buildUnfinishedChunks ::
  "buildEnv \<Rightarrow> siaFileEntry list \<Rightarrow> string set \<Rightarrow> repairTarget \<Rightarrow>
   build_error + unfinishedUploadChunk list \<times> buildEvent list \<times> siaFileEntry option" where
  "buildUnfinishedChunks env entrys hosts target =
     (if length entrys = 0 then Inr ([], [], None)
      else if workerPoolLen env < MinPieces (fe_ErasureCode (entrys ! 0))
        then
          (case MarkAllChunksAsStuck (storeWritable env) (entrys ! 0) of
             None \<Rightarrow>
               Inr ([], EvMarkAllChunksAsStuck 0 # EvWarnMarkStuck #
                        map EvClose [0 ..< length entrys], None)
           | Some marked \<Rightarrow>
               Inr ([], EvMarkAllChunksAsStuck 0 # map EvClose [0 ..< length entrys],
                    Some marked))
      else
        (case assembleIndexes target (zip [0 ..< length entrys] entrys) of
           Inl e \<Rightarrow> Inl e
         | Inr (chunkIndexes, evs1) \<Rightarrow>
             if length chunkIndexes = 0 then Inr ([], evs1, None)
             else
               (case assembleChunks env hosts entrys
                       (zip [0 ..< length chunkIndexes] chunkIndexes) of
                  Inl e \<Rightarrow> Inl e
                | Inr (newUnfinishedChunks, evs2) \<Rightarrow>
                    (case markUsedHosts env (set (fe_HostPublicKeys (entrys ! 0))) (entrys ! 0)
                            (zip chunkIndexes newUnfinishedChunks) of
                       Inl e \<Rightarrow> Inl e
                     | Inr None \<Rightarrow> Inr ([], evs1 @ evs2, None)
                     | Inr (Some marked) \<Rightarrow>
                         (case incomplete marked of
                            (incompleteChunks, evs3) \<Rightarrow>
                              Inr (incompleteChunks, evs1 @ evs2 @ evs3, None))))))"

text \<open>
  What the last clause of the build decides. A host is good for a chunk when it is among
  the hosts passed to the build and the contractor holds a contract with it that is good
  for renewal. A chunk is stored when the file has \<open>n\<close> piece sets for it, every host in
  them is in the file's table of host keys, every piece set holds a good host, and no host
  is in two of the piece sets (the placement rule: at most one piece per host).
\<close>

definition goodHost :: "buildEnv \<Rightarrow> string set \<Rightarrow> string \<Rightarrow> bool" where
  "goodHost env hosts h \<longleftrightarrow>
     h \<in> hosts \<and> (case contractUtility env h of None \<Rightarrow> False | Some u \<Rightarrow> GoodForRenew u)"

definition storedOnGoodHosts ::
  "buildEnv \<Rightarrow> string set \<Rightarrow> siaFileEntry \<Rightarrow> nat \<Rightarrow> int \<Rightarrow> bool" where
  "storedOnGoodHosts env hosts e idx n \<longleftrightarrow>
     (case entryPieces e idx of
        None \<Rightarrow> False
      | Some pieces \<Rightarrow>
          int (length pieces) = n \<and>
          (\<forall>pieceSet \<in> set pieces. set pieceSet \<subseteq> set (fe_HostPublicKeys e)) \<and>
          (\<forall>p < length pieces. \<exists>h \<in> set (pieces ! p). goodHost env hosts h) \<and>
          (\<forall>p < length pieces. \<forall>p' < length pieces.
             p \<noteq> p' \<longrightarrow> set (pieces ! p) \<inter> set (pieces ! p') = {}))"

text \<open>
  A file of two chunks with two pieces each: chunk 0 has one piece uploaded, chunk 1 both.
  A renter with a pool of \<open>n\<close> workers, contracts with both hosts, and a metadata store
  that is writable or not.
\<close>

definition partlyUploaded :: siaFileEntry where
  "partlyUploaded =
     \<lparr>fe_UID = ''f'', fe_ChunkSize = 100, fe_PieceSize = 100,
      fe_ErasureCode = \<lparr>MinPieces = 1, NumPieces = 2, SupportsPartialEncoding = False\<rparr>,
      fe_Overhead = 0, fe_stuck = [False, False], fe_HostPublicKeys = [''h1'', ''h2''],
      fe_pieces = [[[''h1''], []], [[''h1''], [''h2'']]]\<rparr>"

definition poolOf :: "int \<Rightarrow> bool \<Rightarrow> buildEnv" where
  "poolOf n writable =
     \<lparr>workerPoolLen = n,
      contractUtility = [''h1'' \<mapsto> \<lparr>GoodForUpload = True, GoodForRenew = True\<rparr>,
                         ''h2'' \<mapsto> \<lparr>GoodForUpload = True, GoodForRenew = True\<rparr>],
      zeroKey = [], DEBUG = True, storeWritable = writable\<rparr>"

text \<open>A file of one chunk that breaks the placement rule: host \<open>h2\<close> holds both pieces.\<close>

definition doublyPlaced :: siaFileEntry where
  "doublyPlaced =
     \<lparr>fe_UID = ''g'', fe_ChunkSize = 100, fe_PieceSize = 100,
      fe_ErasureCode = \<lparr>MinPieces = 1, NumPieces = 2, SupportsPartialEncoding = False\<rparr>,
      fe_Overhead = 0, fe_stuck = [False], fe_HostPublicKeys = [''h1'', ''h2''],
      fe_pieces = [[[''h1'', ''h2''], [''h2'']]]\<rparr>"

section \<open>The repair loop (uploadheap.go)\<close>

text \<open>
  \<open>managedRepairLoop\<close> runs until it is told to stop, the renter is offline or the heap
  is empty. What it sees from outside is a parameter, indexed by the iteration: the stop
  and rebuild signals, whether the renter is online, the cached health of a file entry,
  the size of the worker pool, and whether the memory manager grants a request. The
  constant \<open>maxConsecutiveChunkRepairs\<close> is declared elsewhere. Calls on file entries,
  on the memory manager and the start of the repair thread are events, in the order in
  which the loop makes them.
\<close>

record repairEnv =
  stopChan :: "nat \<Rightarrow> bool"
  rebuildHeapSignal :: "nat \<Rightarrow> bool"
  Online :: "nat \<Rightarrow> bool"
  CachedHealth :: "nat \<Rightarrow> nat \<Rightarrow> real"
  availableWorkers :: "nat \<Rightarrow> int"
  memoryRequest :: "nat \<Rightarrow> nat \<Rightarrow> bool"
  maxConsecutiveChunkRepairs :: int

datatype repairEvent =
    Popped nat unfinishedUploadChunk
  | UpdateRecentRepairTime nat nat
  | SetStuck nat nat nat
  | BubbleMetadata nat nat
  | MemoryRequest nat unfinishedUploadChunk
  | FetchAndRepairChunk nat unfinishedUploadChunk
  | Drained unfinishedUploadChunk

text \<open>Popping shortens the heap, which is why the loops below end.\<close>

lemma length_Swap: "length (Swap h i j) = length h"
  by (simp add: Swap_def)

lemma length_down: "length (down h i n) = length h"
proof (induction h i n rule: down.induct)
  case (1 h i n)
  show ?case
    using "1.IH" by (subst down.simps) (simp add: Let_def length_Swap)
qed

lemma managedPop_shrinks:
  assumes "managedPop uh = (Some c, uh')"
  shows "length (heap uh') < length (heap uh)"
proof -
  from assms have ne: "0 < length (heap uh)" and h: "heap uh' = snd (heap_Pop (heap uh))"
    by (auto simp: managedPop_def split: if_splits prod.splits)
  have "length (snd (heap_Pop (heap uh))) = length (heap uh) - 1"
    by (simp add: heap_Pop_def Pop_def Let_def length_down length_Swap)
  then show ?thesis using ne h by simp
qed

text \<open>
  The loop that empties the heap once enough chunks are being repaired, keeping the
  stuck chunks. (\<open>managedPop\<close> cannot return nil here, the heap being non-empty.)
\<close>

function drainStuck ::
  "uploadHeap \<Rightarrow> unfinishedUploadChunk list \<times> repairEvent list \<times> uploadHeap" where
  "drainStuck uh =
     (if 0 < managedLen uh
      then (case managedPop uh of
              (Some c, uh') \<Rightarrow>
                (case drainStuck uh' of
                   (stuckChunks, evs, uh'') \<Rightarrow>
                     ((if uuc_stuck c then [c] else []) @ stuckChunks, Drained c # evs, uh''))
            | (None, uh') \<Rightarrow> ([], [], uh'))
      else ([], [], uh))"
  by pat_completeness auto
termination
  by (relation "measure (\<lambda>uh. length (heap uh))") (auto dest: managedPop_shrinks[OF sym])

declare drainStuck.simps [simp del]

definition stampRecentRepair :: "repairEnv \<Rightarrow> nat \<Rightarrow> unfinishedUploadChunk \<Rightarrow> repairEvent list" where
  "stampRecentRepair env i nextChunk =
     (if CachedHealth env i (uuc_fileEntry nextChunk) < 0.8
      then [UpdateRecentRepairTime i (uuc_fileEntry nextChunk)]
      else [])"

definition managedPrepareNextChunk ::
  "repairEnv \<Rightarrow> nat \<Rightarrow> unfinishedUploadChunk \<Rightarrow> repairEvent list" where
  "managedPrepareNextChunk env i uuc =
     MemoryRequest i uuc #
     (if memoryRequest env i (uuc_memoryNeeded uuc) then [FetchAndRepairChunk i uuc] else [])"

function managedRepairLoop ::
  "repairEnv \<Rightarrow> nat \<Rightarrow> int \<Rightarrow> uploadHeap \<Rightarrow> repairEvent list \<times> uploadHeap" where
  "managedRepairLoop env i consecutiveChunkRepairs uh =
     (if stopChan env i \<or> rebuildHeapSignal env i then ([], uh)
      else if \<not> Online env i then ([], uh)
      else
        (case managedPop uh of
           (None, uh') \<Rightarrow> ([], uh')
         | (Some nextChunk, uh') \<Rightarrow>
             if availableWorkers env i < uuc_minimumPieces nextChunk
             then
               (case managedRepairLoop env (Suc i) consecutiveChunkRepairs uh' of
                  (evs, uh'') \<Rightarrow>
                    (Popped i nextChunk # stampRecentRepair env i nextChunk @
                       [SetStuck i (uuc_fileEntry nextChunk) (uuc_index nextChunk),
                        BubbleMetadata i (uuc_fileEntry nextChunk)] @ evs,
                     uh''))
             else if maxConsecutiveChunkRepairs env \<le> consecutiveChunkRepairs + 1
             then
               (case drainStuck uh' of
                  (stuckChunks, evs, uh'') \<Rightarrow>
                    (Popped i nextChunk # stampRecentRepair env i nextChunk @
                       managedPrepareNextChunk env i nextChunk @ evs,
                     foldl managedPush uh'' stuckChunks))
             else
               (case managedRepairLoop env (Suc i) (consecutiveChunkRepairs + 1) uh' of
                  (evs, uh'') \<Rightarrow>
                    (Popped i nextChunk # stampRecentRepair env i nextChunk @
                       managedPrepareNextChunk env i nextChunk @ evs,
                     uh''))))"
  by pat_completeness auto
termination
  by (relation "measure (\<lambda>(env, i, n, uh). length (heap uh))") (auto dest: managedPop_shrinks[OF sym])

declare managedRepairLoop.simps [simp del]

text \<open>The iteration an event belongs to.\<close>

fun iteration :: "repairEvent \<Rightarrow> nat option" where
  "iteration (Popped i c) = Some i"
| "iteration (UpdateRecentRepairTime i f) = Some i"
| "iteration (SetStuck i f n) = Some i"
| "iteration (BubbleMetadata i f) = Some i"
| "iteration (MemoryRequest i c) = Some i"
| "iteration (FetchAndRepairChunk i c) = Some i"
| "iteration (Drained c) = None"

text \<open>The events of the tail of an iteration; a renter in good order with health \<open>h\<close> everywhere; a heap of one chunk.\<close>

definition blockTail :: "nat \<Rightarrow> repairEvent \<Rightarrow> bool" where
  "blockTail i e \<longleftrightarrow>
     (\<exists>f n. e = SetStuck i f n) \<or> (\<exists>f. e = BubbleMetadata i f) \<or>
     (\<exists>c. e = MemoryRequest i c) \<or> (\<exists>c. e = FetchAndRepairChunk i c)"

definition repairEnvOf :: "real \<Rightarrow> repairEnv" where
  "repairEnvOf h =
     \<lparr>stopChan = (\<lambda>i. False), rebuildHeapSignal = (\<lambda>i. False), Online = (\<lambda>i. True),
      CachedHealth = (\<lambda>i f. h), availableWorkers = (\<lambda>i. 5),
      memoryRequest = (\<lambda>i bytes. True), maxConsecutiveChunkRepairs = 20\<rparr>"

definition oneChunkHeap :: uploadHeap where
  "oneChunkHeap = managedPush (newUploadHeap {}) (testChunk ''f'' 0 False 0 1)"

section \<open>Properties of the upload heap\<close>

lemmas heap_eval =
  run_ops_def newUploadHeap_def testChunk_def managedPush_def managedPop_def heap_Pop_def
  Pop_def Push_def Swap_def down.simps Less_def chunk_less_def ratio_def fdiv_def
  float64_of_int_def float64_quot_def roundHalfEven_def bitlen.simps Let_def
  eval_nat_numeral

lemma bitlen_bounds: "0 < n \<Longrightarrow> 2 ^ bitlen n \<le> 2 * n \<and> n < 2 ^ bitlen n"
proof (induction n rule: bitlen.induct)
  case (1 n)
  have b: "bitlen n = Suc (bitlen (n div 2))" using "1.prems" by (subst bitlen.simps) simp
  show ?case
  proof (cases "n div 2 = 0")
    case True
    then have "n = 1" using "1.prems" by (simp add: div_eq_0_iff)
    then show ?thesis by (simp add: bitlen.simps)
  next
    case False
    then have IH: "2 ^ bitlen (n div 2) \<le> 2 * (n div 2) \<and> n div 2 < 2 ^ bitlen (n div 2)"
      using "1.IH" "1.prems" by simp
    have a1: "2 * (n div 2) \<le> n" by simp
    have a2: "n < 2 * (n div 2) + 2" by presburger
    have "(2::nat) ^ bitlen (n div 2) \<le> n" using IH a1 by linarith
    moreover have "n < 2 * 2 ^ bitlen (n div 2)" using IH a2 by linarith
    ultimately show ?thesis unfolding b by simp
  qed
qed

lemma roundHalfEven_near:
  assumes "0 < d"
  shows "\<bar>2 * (roundHalfEven n d * d - n)\<bar> \<le> d \<and>
         (\<bar>2 * (roundHalfEven n d * d - n)\<bar> = d \<longrightarrow> even (roundHalfEven n d))"
proof -
  define q where "q = n div d"
  define r where "r = n mod d"
  have n: "n = q * d + r" by (simp add: q_def r_def)
  have r: "0 \<le> r" "r < d" using assms by (simp_all add: r_def)
  define m where "m = roundHalfEven n d"
  have m: "m = (if 2 * r < d then q else if d < 2 * r then q + 1 else if even q then q else q + 1)"
    by (simp add: m_def roundHalfEven_def Let_def q_def r_def)
  have "\<bar>2 * (m * d - n)\<bar> \<le> d \<and> (\<bar>2 * (m * d - n)\<bar> = d \<longrightarrow> even m)"
    unfolding m n using r by (auto simp: algebra_simps)
  then show ?thesis unfolding m_def .
qed

lemma roundHalfEven_real:
  assumes "0 < d"
  shows "\<bar>real_of_int (roundHalfEven n d) - real_of_int n / real_of_int d\<bar> \<le> 1 / 2 \<and>
         (\<bar>real_of_int (roundHalfEven n d) - real_of_int n / real_of_int d\<bar> = 1 / 2 \<longrightarrow>
            even (roundHalfEven n d))"
proof -
  define m where "m = roundHalfEven n d"
  have dpos: "0 < real_of_int d" using assms by simp
  have eq: "real_of_int m - real_of_int n / real_of_int d = real_of_int (m * d - n) / real_of_int d"
    using assms by (simp add: field_simps)
  have ab: "\<bar>real_of_int m - real_of_int n / real_of_int d\<bar> = real_of_int \<bar>2 * (m * d - n)\<bar> / (2 * real_of_int d)"
  proof -
    have i: "\<bar>2 * (m * d - n)\<bar> = 2 * \<bar>m * d - n\<bar>" by (simp only: abs_mult abs_numeral)
    have "real_of_int \<bar>2 * (m * d - n)\<bar> = 2 * real_of_int \<bar>m * d - n\<bar>"
      unfolding i by (simp only: of_int_mult of_int_numeral)
    then have "real_of_int \<bar>2 * (m * d - n)\<bar> / (2 * real_of_int d)
                 = real_of_int \<bar>m * d - n\<bar> / real_of_int d" by simp
    also have "\<dots> = \<bar>real_of_int (m * d - n) / real_of_int d\<bar>"
      using dpos by (simp only: abs_divide of_int_abs abs_of_pos)
    finally show ?thesis unfolding eq by (rule sym)
  qed
  have gen: "(X / (2 * D) \<le> 1 / 2) = (X \<le> D)" "(X / (2 * D) = 1 / 2) = (X = D)"
    if "0 < D" for X D :: real
    using that by (auto simp: field_simps)
  have le: "(real_of_int \<bar>2 * (m * d - n)\<bar> / (2 * real_of_int d) \<le> 1 / 2) = (\<bar>2 * (m * d - n)\<bar> \<le> d)"
    unfolding gen(1)[OF dpos] by (rule of_int_le_iff)
  have eqq: "(real_of_int \<bar>2 * (m * d - n)\<bar> / (2 * real_of_int d) = 1 / 2) = (\<bar>2 * (m * d - n)\<bar> = d)"
    unfolding gen(2)[OF dpos] by (rule of_int_eq_iff)
  show ?thesis using roundHalfEven_near[OF assms, of n] unfolding m_def[symmetric] ab le eqq .
qed

lemma nearest_unique:
  fixes t :: real and m1 m2 :: int
  assumes "\<bar>real_of_int m1 - t\<bar> \<le> 1 / 2" "\<bar>real_of_int m1 - t\<bar> = 1 / 2 \<longrightarrow> even m1"
    and "\<bar>real_of_int m2 - t\<bar> \<le> 1 / 2" "\<bar>real_of_int m2 - t\<bar> = 1 / 2 \<longrightarrow> even m2"
  shows "m1 = m2"
proof (rule ccontr)
  assume ne: "m1 \<noteq> m2"
  have "\<bar>real_of_int m1 - real_of_int m2\<bar> \<le> 1" using assms(1,3) by linarith
  then have "\<bar>m1 - m2\<bar> \<le> 1" by linarith
  then have c: "m1 = m2 + 1 \<or> m2 = m1 + 1" using ne by linarith
  have "\<bar>real_of_int m1 - t\<bar> = 1 / 2 \<and> \<bar>real_of_int m2 - t\<bar> = 1 / 2"
  proof (cases "m1 = m2 + 1")
    case True
    then have "real_of_int m1 = real_of_int m2 + 1" by simp
    then show ?thesis using assms(1,3) by linarith
  next
    case False
    then have "m2 = m1 + 1" using c by simp
    then have "real_of_int m2 = real_of_int m1 + 1" by simp
    then show ?thesis using assms(1,3) by linarith
  qed
  then have "even m1 \<and> even m2" using assms(2,4) by simp
  then show False using c by auto
qed

lemma pow_ratio: "(2::real) ^ nat e / 2 ^ nat (- e) = 2 powi e"
  by (cases "0 \<le> e") (simp_all add: power_int_def field_simps)

lemma float64_quot_char:
  assumes p: "0 < p" and q: "0 < q"
  shows "\<exists>e m. float64_quot p q = real_of_int m * 2 powi e \<and>
           2 powi (e + 52) \<le> real_of_int p / real_of_int q \<and>
           real_of_int p / real_of_int q < 2 powi (e + 53) \<and>
           \<bar>real_of_int m - (real_of_int p / real_of_int q) / 2 powi e\<bar> \<le> 1 / 2 \<and>
           (\<bar>real_of_int m - (real_of_int p / real_of_int q) / 2 powi e\<bar> = 1 / 2 \<longrightarrow> even m)"
proof -
  define P where "P = real_of_int p"
  define Q where "Q = real_of_int q"
  define bp where "bp = bitlen (nat p)"
  define bq where "bq = bitlen (nat q)"
  define k where "k = int bp - int bq"
  define T where "T = (q * 2 ^ nat k \<le> p * 2 ^ nat (- k))"
  define e where "e = (if T then k else k - 1) - 52"
  define N where "N = p * 2 ^ nat (- e)"
  define D where "D = q * 2 ^ nat e"
  define m where "m = roundHalfEven N D"
  have Ppos: "0 < P" and Qpos: "0 < Q" using p q by (simp_all add: P_def Q_def)
  have val: "float64_quot p q = real_of_int m * 2 powi e"
  proof -
    have "float64_quot p q = real_of_int m * 2 ^ nat e / 2 ^ nat (- e)"
      using p by (simp add: float64_quot_def Let_def m_def N_def D_def e_def T_def k_def bp_def bq_def)
    also have "\<dots> = real_of_int m * (2 ^ nat e / 2 ^ nat (- e))" by simp
    finally show ?thesis by (simp only: pow_ratio)
  qed
  \<comment> \<open>bit lengths\<close>
  have bP: "2 ^ bp \<le> 2 * P" "P < 2 ^ bp"
  proof -
    from bitlen_bounds[of "nat p"] p
    have a: "2 ^ bp \<le> 2 * nat p" and b: "nat p < 2 ^ bp" by (simp_all add: bp_def)
    have "real (2 ^ bp) \<le> real (2 * nat p)" using a by (rule of_nat_mono)
    then show "2 ^ bp \<le> 2 * P" using p by (simp add: P_def)
    have "real (nat p) < real (2 ^ bp)" using b by (rule of_nat_less_iff[THEN iffD2])
    then show "P < 2 ^ bp" using p by (simp add: P_def)
  qed
  have bQ: "2 ^ bq \<le> 2 * Q" "Q < 2 ^ bq"
  proof -
    from bitlen_bounds[of "nat q"] q
    have a: "2 ^ bq \<le> 2 * nat q" and b: "nat q < 2 ^ bq" by (simp_all add: bq_def)
    have "real (2 ^ bq) \<le> real (2 * nat q)" using a by (rule of_nat_mono)
    then show "2 ^ bq \<le> 2 * Q" using q by (simp add: Q_def)
    have "real (nat q) < real (2 ^ bq)" using b by (rule of_nat_less_iff[THEN iffD2])
    then show "Q < 2 ^ bq" using q by (simp add: Q_def)
  qed
  have kpow: "(2::real) powi k = 2 ^ bp / 2 ^ bq"
    unfolding k_def by (subst power_int_diff) simp_all
  have lowk: "2 powi (k - 1) < P / Q"
  proof -
    have "2 powi (k - 1) = (2::real) powi k / 2" by (subst power_int_diff) simp_all
    also have "\<dots> = (2 ^ bp / 2) / 2 ^ bq" by (simp add: kpow)
    also have "\<dots> \<le> P / 2 ^ bq"
    proof (rule divide_right_mono)
      show "2 ^ bp / 2 \<le> P" using bP(1) by simp
    qed simp
    also have "\<dots> < P / Q" using bQ(2) Ppos Qpos by (simp add: divide_strict_left_mono)
    finally show ?thesis .
  qed
  have upk: "P / Q < 2 powi (k + 1)"
  proof -
    have "P / Q < 2 ^ bp / Q" using bP(2) Qpos by (simp add: divide_strict_right_mono)
    also have "\<dots> \<le> 2 ^ bp / (2 ^ bq / 2)" using bQ(1) Qpos
      by (intro divide_left_mono) (simp_all add: field_simps)
    also have "\<dots> = 2 powi k * 2" by (simp add: kpow)
    also have "\<dots> = 2 powi (k + 1)" by (subst power_int_add) simp_all
    finally show ?thesis .
  qed
  have Tiff: "T = (2 powi k \<le> P / Q)"
  proof -
    have "T = (real_of_int (q * 2 ^ nat k) \<le> real_of_int (p * 2 ^ nat (- k)))"
      unfolding T_def by linarith
    also have "\<dots> = (Q * 2 ^ nat k \<le> P * 2 ^ nat (- k))" by (simp add: P_def Q_def)
    also have "\<dots> = (2 ^ nat k / 2 ^ nat (- k) \<le> P / Q)" using Qpos by (simp add: field_simps)
    finally show ?thesis by (simp only: pow_ratio)
  qed
  have lo: "2 powi (e + 52) \<le> P / Q" and hi: "P / Q < 2 powi (e + 53)"
  proof -
    show "2 powi (e + 52) \<le> P / Q"
    proof (cases T)
      case True
      then show ?thesis using Tiff by (simp add: e_def)
    next
      case False
      then show ?thesis using lowk by (simp add: e_def)
    qed
    show "P / Q < 2 powi (e + 53)"
    proof (cases T)
      case True
      then show ?thesis using upk by (simp add: e_def add.commute)
    next
      case False
      then show ?thesis using Tiff by (simp add: e_def)
    qed
  qed
  have Dpos: "0 < D" using q by (simp add: D_def)
  have ND: "real_of_int N / real_of_int D = (P / Q) / 2 powi e"
  proof -
    have "real_of_int N / real_of_int D = (P * 2 ^ nat (- e)) / (Q * 2 ^ nat e)"
      by (simp add: N_def D_def P_def Q_def)
    also have "\<dots> = (P / Q) / (2 ^ nat e / 2 ^ nat (- e))" by simp
    finally show ?thesis by (simp only: pow_ratio)
  qed
  from roundHalfEven_real[OF Dpos, of N]
  have near: "\<bar>real_of_int m - (P / Q) / 2 powi e\<bar> \<le> 1 / 2 \<and>
         (\<bar>real_of_int m - (P / Q) / 2 powi e\<bar> = 1 / 2 \<longrightarrow> even m)"
    unfolding m_def[symmetric] ND .
  show ?thesis using val lo hi near unfolding P_def Q_def by blast
qed

lemma exponent_unique:
  fixes x :: real
  assumes "2 powi (e + 52) \<le> x" "x < 2 powi (e + 53)"
      and "2 powi (e' + 52) \<le> x" "x < 2 powi (e' + 53)"
  shows "e = e'"
proof -
  have a: "e' + 52 < e + 53"
  proof (rule ccontr)
    assume "\<not> e' + 52 < e + 53"
    then have "(2::real) powi (e + 53) \<le> 2 powi (e' + 52)" by (intro power_int_increasing) simp_all
    then show False using assms by linarith
  qed
  have b: "e + 52 < e' + 53"
  proof (rule ccontr)
    assume "\<not> e + 52 < e' + 53"
    then have "(2::real) powi (e' + 53) \<le> 2 powi (e + 52)" by (intro power_int_increasing) simp_all
    then show False using assms by linarith
  qed
  show ?thesis using a b by simp
qed

lemma float64_quot_cong:
  assumes "0 < p" "0 < q" "0 < p'" "0 < q'"
    and "real_of_int p / real_of_int q = real_of_int p' / real_of_int q'"
  shows "float64_quot p q = float64_quot p' q'"
proof -
  define x where "x = real_of_int p / real_of_int q"
  from float64_quot_char[OF assms(1,2)] obtain e m where
    1: "float64_quot p q = real_of_int m * 2 powi e" "2 powi (e + 52) \<le> x" "x < 2 powi (e + 53)"
       "\<bar>real_of_int m - x / 2 powi e\<bar> \<le> 1 / 2" "\<bar>real_of_int m - x / 2 powi e\<bar> = 1 / 2 \<longrightarrow> even m"
    unfolding x_def by blast
  from float64_quot_char[OF assms(3,4)] obtain e' m' where
    2: "float64_quot p' q' = real_of_int m' * 2 powi e'" "2 powi (e' + 52) \<le> x" "x < 2 powi (e' + 53)"
       "\<bar>real_of_int m' - x / 2 powi e'\<bar> \<le> 1 / 2" "\<bar>real_of_int m' - x / 2 powi e'\<bar> = 1 / 2 \<longrightarrow> even m'"
    unfolding x_def assms(5) by blast
  have e: "e = e'" using exponent_unique[OF 1(2,3) 2(2,3)] .
  have "m = m'" using nearest_unique[OF 1(4,5) 2(4,5)[folded e]] .
  then show ?thesis using 1(1) 2(1) e by simp
qed

lemma float64_quot_error:
  assumes "0 < p" "0 < q"
  shows "\<bar>float64_quot p q - real_of_int p / real_of_int q\<bar> \<le> (real_of_int p / real_of_int q) / 2 ^ 53"
proof -
  define x where "x = real_of_int p / real_of_int q"
  from float64_quot_char[OF assms] obtain e m where
    1: "float64_quot p q = real_of_int m * 2 powi e" "2 powi (e + 52) \<le> x"
       "\<bar>real_of_int m - x / 2 powi e\<bar> \<le> 1 / 2"
    unfolding x_def by blast
  define s where "s = (2::real) powi e"
  have spos: "0 < s" by (simp add: s_def)
  have "float64_quot p q - x = s * (real_of_int m - x / s)"
    using spos by (simp add: 1(1) s_def field_simps)
  then have "\<bar>float64_quot p q - x\<bar> = s * \<bar>real_of_int m - x / s\<bar>"
    using spos by (simp add: abs_mult)
  also have "\<dots> \<le> s * (1 / 2)" using 1(3) spos unfolding s_def[symmetric]
    by (intro mult_left_mono) simp_all
  also have "\<dots> = (s * 2 ^ 52) / 2 ^ 53" by simp
  also have "s * 2 ^ 52 = 2 powi (e + 52)" unfolding s_def by (subst power_int_add) simp_all
  also have "2 powi (e + 52) / 2 ^ 53 \<le> x / 2 ^ 53" using 1(2) by (simp add: divide_right_mono)
  finally show ?thesis unfolding x_def .
qed

lemma float64_quot_zero: "float64_quot 0 q = 0"
  by (simp add: float64_quot_def)

lemma float64_quot_pos:
  assumes "0 < p" "0 < q"
  shows "0 < float64_quot p q"
proof -
  define x where "x = real_of_int p / real_of_int q"
  have xpos: "0 < x" using assms by (simp add: x_def)
  have "x / 2 ^ 53 < x" using xpos by (simp add: field_simps)
  then show ?thesis using float64_quot_error[OF assms] unfolding x_def[symmetric] by linarith
qed

lemma float64_quot_strict:
  assumes a: "0 \<le> a" and b: "0 < b" and c: "0 \<le> c" and d: "0 < d"
    and bc: "b * c \<le> 2 ^ 52"
    and lt: "real_of_int a / real_of_int b < real_of_int c / real_of_int d"
  shows "float64_quot a b < float64_quot c d"
proof -
  define x where "x = real_of_int a / real_of_int b"
  define y where "y = real_of_int c / real_of_int d"
  have x0: "0 \<le> x" using a b by (simp add: x_def)
  have ypos: "0 < y" using lt x0 by (simp add: x_def y_def)
  have cpos: "0 < c"
  proof (rule ccontr)
    assume "\<not> 0 < c"
    then have "c = 0" using c by simp
    then show False using ypos by (simp add: y_def)
  qed
  have ey: "\<bar>float64_quot c d - y\<bar> \<le> y / 2 ^ 53"
    using float64_quot_error[OF cpos d] by (simp add: y_def)
  show ?thesis
  proof (cases "a = 0")
    case True
    have "0 < float64_quot c d" using float64_quot_pos[OF cpos d] .
    then show ?thesis using True by (simp add: float64_quot_zero)
  next
    case False
    then have apos: "0 < a" using a by simp
    have ex: "\<bar>float64_quot a b - x\<bar> \<le> x / 2 ^ 53"
      using float64_quot_error[OF apos b] by (simp add: x_def)
    \<comment> \<open>the two quotients are at least \<open>1 / (b * d)\<close> apart\<close>
    have cross: "a * d < c * b"
    proof -
      have "real_of_int a * real_of_int d < real_of_int c * real_of_int b"
        using lt b d by (simp add: field_simps)
      then have "real_of_int (a * d) < real_of_int (c * b)" by simp
      then show ?thesis by linarith
    qed
    then have "a * d + 1 \<le> c * b" by simp
    then have "real_of_int (a * d + 1) \<le> real_of_int (c * b)" by linarith
    then have num: "1 \<le> real_of_int c * real_of_int b - real_of_int a * real_of_int d" by simp
    have bd: "0 < real_of_int b * real_of_int d" using b d by simp
    have "y - x = (real_of_int c * real_of_int b - real_of_int a * real_of_int d)
                    / (real_of_int b * real_of_int d)"
      using b d by (simp add: x_def y_def field_simps)
    moreover have "1 / (real_of_int b * real_of_int d)
                     \<le> (real_of_int c * real_of_int b - real_of_int a * real_of_int d)
                        / (real_of_int b * real_of_int d)"
      using num bd by (intro divide_right_mono) simp_all
    ultimately have gap: "x + 1 / (real_of_int b * real_of_int d) \<le> y" by linarith
    have "real_of_int (b * c) \<le> real_of_int (2 ^ 52)" using bc by linarith
    then have "real_of_int b * real_of_int c \<le> 2 ^ 52" by simp
    then have "y / 2 ^ 52 \<le> 1 / (real_of_int b * real_of_int d)"
      using b d by (simp add: y_def field_simps)
    then have sep: "y / 2 ^ 52 \<le> y - x" using gap by linarith
    have "x / 2 ^ 53 + y / 2 ^ 53 < y / 2 ^ 52"
    proof -
      have "x < y" using lt by (simp add: x_def y_def)
      then have "x / 2 ^ 53 < y / 2 ^ 53" by (simp add: divide_strict_right_mono)
      moreover have "y / 2 ^ 53 + y / 2 ^ 53 = y / 2 ^ 52" by simp
      ultimately show ?thesis by linarith
    qed
    then show ?thesis using ex ey sep by linarith
  qed
qed

lemma float64_of_int_small:
  assumes "0 \<le> a" "a \<le> 2 ^ 26"
  shows "float64_of_int a = a"
proof -
  have "bitlen (nat a) \<le> 53"
  proof (cases "a = 0")
    case True
    then show ?thesis by (simp add: bitlen.simps)
  next
    case False
    then have "0 < nat a" using assms by simp
    from bitlen_bounds[OF this] have "2 ^ bitlen (nat a) \<le> 2 * nat a" by simp
    also have "\<dots> \<le> 2 * nat (2 ^ 26)" using assms by simp
    also have "\<dots> < 2 ^ 53" by simp
    finally have "(2::nat) ^ bitlen (nat a) < 2 ^ 53" .
    then have "bitlen (nat a) < 53" by (rule power_less_imp_less_exp[rotated]) simp
    then show ?thesis by simp
  qed
  then have "bitlen (nat \<bar>a\<bar>) - 53 = 0" using assms by simp
  then show ?thesis by (simp add: float64_of_int_def roundHalfEven_def)
qed

text \<open>
  For piece counts up to \<open>2^26\<close> the conversions are exact and the rounded quotients are
  ordered as the exact ones.
\<close>

lemma fdiv_small:
  assumes a: "0 \<le> a" "a \<le> 2 ^ 26" and b: "0 < b" "b \<le> 2 ^ 26"
    and c: "0 \<le> c" "c \<le> 2 ^ 26" and d: "0 < d" "d \<le> 2 ^ 26"
  shows "flt (fdiv a b) (fdiv c d)
           = (real_of_int a / real_of_int b < real_of_int c / real_of_int d)"
proof -
  have conv: "float64_of_int a = a" "float64_of_int b = b" "float64_of_int c = c"
    "float64_of_int d = d"
    using a b c d by (simp_all add: float64_of_int_small)
  have fa: "fdiv a b = Fin (float64_quot a b)" and fc: "fdiv c d = Fin (float64_quot c d)"
    using a b c d by (simp_all add: fdiv_def conv)
  have prod: "x * y \<le> 2 ^ 52" if "0 \<le> x" "x \<le> 2 ^ 26" "0 \<le> y" "y \<le> 2 ^ 26" for x y :: int
  proof -
    have "x * y \<le> 2 ^ 26 * 2 ^ 26" using that by (intro mult_mono) simp_all
    then show ?thesis by simp
  qed
  have bc: "b * c \<le> 2 ^ 52" using prod[of b c] b c by simp
  have da: "d * a \<le> 2 ^ 52" using prod[of d a] a d by simp
  show ?thesis
  proof (cases "real_of_int a / real_of_int b < real_of_int c / real_of_int d")
    case True
    then show ?thesis
      using float64_quot_strict[OF a(1) b(1) c(1) d(1) bc] by (simp add: fa fc)
  next
    case False
    have "\<not> float64_quot a b < float64_quot c d"
    proof (cases "real_of_int a / real_of_int b = real_of_int c / real_of_int d")
      case eq: True
      show ?thesis
      proof (cases "a = 0")
        case True
        then have "c = 0" using eq d by simp
        then show ?thesis using True by (simp add: float64_quot_zero)
      next
        case False
        then have apos: "0 < a" using a by simp
        have "c \<noteq> 0" using eq apos b by auto
        then have cpos: "0 < c" using c by simp
        show ?thesis using float64_quot_cong[OF apos b(1) cpos d(1) eq] by simp
      qed
    next
      case False
      then have "real_of_int c / real_of_int d < real_of_int a / real_of_int b"
        using \<open>\<not> real_of_int a / real_of_int b < real_of_int c / real_of_int d\<close> by simp
      from float64_quot_strict[OF c(1) d(1) a(1) b(1) da this] show ?thesis by simp
    qed
    then show ?thesis using False by (simp add: fa fc)
  qed
qed

lemma mset_Swap: "i < length h \<Longrightarrow> j < length h \<Longrightarrow> mset (Swap h i j) = mset h"
  by (simp add: Swap_def mset_swap)

lemma Swap_nth_other: "k \<noteq> i \<Longrightarrow> k \<noteq> j \<Longrightarrow> Swap h i j ! k = h ! k"
  by (simp add: Swap_def)

lemma mset_down: "n \<le> length h \<Longrightarrow> mset (down h i n) = mset h"
proof (induction h i n rule: down.induct)
  case (1 h i n)
  show ?case
    using "1.IH" "1.prems"
    by (subst down.simps) (auto simp: Let_def length_Swap mset_Swap)
qed

lemma down_nth_ge: "n \<le> k \<Longrightarrow> down h i n ! k = h ! k"
proof (induction h i n rule: down.induct)
  case (1 h i n)
  show ?case
    using "1.IH" "1.prems"
    by (subst down.simps) (auto simp: Let_def Swap_nth_other)
qed

lemma heap_Pop_fst: "h \<noteq> [] \<Longrightarrow> fst (heap_Pop h) = hd h"
proof -
  assume ne: "h \<noteq> []"
  let ?n = "length h - 1"
  have "down (Swap h 0 ?n) 0 ?n \<noteq> []"
    using ne length_down[of "Swap h 0 ?n" 0 ?n] by (auto simp: length_Swap)
  then have "last (down (Swap h 0 ?n) 0 ?n) = down (Swap h 0 ?n) 0 ?n ! ?n"
    by (simp add: last_conv_nth length_down length_Swap)
  also have "\<dots> = Swap h 0 ?n ! ?n" by (simp add: down_nth_ge)
  also have "\<dots> = h ! 0" using ne by (simp add: Swap_def)
  also have "\<dots> = hd h" using ne by (simp add: hd_conv_nth)
  finally show ?thesis by (simp add: heap_Pop_def Pop_def Let_def)
qed

lemma heap_Pop_mset: "h \<noteq> [] \<Longrightarrow> mset (snd (heap_Pop h)) = mset h - {#hd h#}"
proof -
  assume ne: "h \<noteq> []"
  let ?n = "length h - 1"
  let ?d = "down (Swap h 0 ?n) 0 ?n"
  have d_ne: "?d \<noteq> []" using ne length_down[of "Swap h 0 ?n" 0 ?n] by (auto simp: length_Swap)
  have m: "mset ?d = mset h" using ne by (simp add: mset_down length_Swap mset_Swap)
  have l: "last ?d = hd h" using heap_Pop_fst[OF ne] by (simp add: heap_Pop_def Pop_def Let_def)
  have "mset (butlast ?d) = mset ?d - {#last ?d#}"
    using d_ne by (metis add_diff_cancel_right' append_butlast_last_id mset.simps(2) mset_append mset.simps(1))
  then show ?thesis using m l by (simp add: heap_Pop_def Pop_def Let_def)
qed

lemma heap_inv_push: "heap_inv uh \<Longrightarrow> heap_inv (managedPush uh c)"
  by (auto simp: heap_inv_def managedPush_def Push_def Let_def)

lemma distinct_map_remove:
  assumes "distinct (map f xs)" "xs \<noteq> []" "mset ys = mset xs - {#hd xs#}"
  shows "distinct (map f ys) \<and> set (map f ys) = set (map f xs) - {f (hd xs)}"
proof -
  obtain x xs' where xs: "xs = x # xs'" using assms(2) by (cases xs) auto
  have m: "mset ys = mset xs'" using assms(3) xs by simp
  then have mm: "mset (map f ys) = mset (map f xs')" by simp
  have d: "distinct (map f xs')" and nin: "f x \<notin> set (map f xs')"
    using assms(1) xs by auto
  have "distinct (map f ys)" using mm d mset_eq_imp_distinct_iff by blast
  moreover have "set (map f ys) = set (map f xs')" using mm mset_eq_setD by blast
  ultimately show ?thesis using nin xs by auto
qed

lemma heap_inv_pop: "heap_inv uh \<Longrightarrow> heap_inv (snd (managedPop uh))"
proof (cases "heap uh = []")
  case True
  assume "heap_inv uh"
  then show ?thesis using True by (simp add: managedPop_def)
next
  case False
  assume inv: "heap_inv uh"
  obtain uc h' where p: "heap_Pop (heap uh) = (uc, h')" by (cases "heap_Pop (heap uh)")
  have uc: "uc = hd (heap uh)" using heap_Pop_fst[OF False] p by simp
  have h': "mset h' = mset (heap uh) - {#hd (heap uh)#}"
    using heap_Pop_mset[OF False] p by simp
  have "distinct (map uuc_id h') \<and>
        set (map uuc_id h') = set (map uuc_id (heap uh)) - {uuc_id (hd (heap uh))}"
    using inv False h' by (intro distinct_map_remove) (simp_all add: heap_inv_def)
  then show ?thesis using inv False p uc
    by (simp add: managedPop_def heap_inv_def)
qed

lemma heap_inv_run_op: "heap_inv uh \<Longrightarrow> heap_inv (run_op uh x)"
  by (cases x) (simp_all add: heap_inv_push heap_inv_pop)

lemma heap_inv_run_ops: "heap_inv uh \<Longrightarrow> heap_inv (run_ops uh ops)"
  unfolding run_ops_def
  by (induction ops arbitrary: uh) (simp_all add: heap_inv_run_op)

lemma heap_inv_new: "heap_inv (newUploadHeap rc)"
  by (simp add: heap_inv_def newUploadHeap_def)

lemma repairing_push: "repairingChunks (managedPush uh c) = repairingChunks uh"
  by (simp add: managedPush_def Let_def)

lemma repairing_pop: "repairingChunks (snd (managedPop uh)) = repairingChunks uh"
  by (simp add: managedPop_def split: prod.splits)

lemma heapChunks_pop_subset: "heapChunks (snd (managedPop uh)) \<subseteq> heapChunks uh"
  by (auto simp: managedPop_def split: prod.splits)

lemma disjoint_push: "sets_disjoint uh \<Longrightarrow> sets_disjoint (managedPush uh c)"
  by (auto simp: sets_disjoint_def managedPush_def Let_def)

lemma disjoint_pop: "sets_disjoint uh \<Longrightarrow> sets_disjoint (snd (managedPop uh))"
  using heapChunks_pop_subset[of uh] repairing_pop[of uh]
  by (auto simp: sets_disjoint_def)

lemma disjoint_run_op: "sets_disjoint uh \<Longrightarrow> sets_disjoint (run_op uh x)"
  by (cases x) (simp_all add: disjoint_push disjoint_pop)

lemma disjoint_run_ops: "sets_disjoint uh \<Longrightarrow> sets_disjoint (run_ops uh ops)"
  unfolding run_ops_def
  by (induction ops arbitrary: uh) (simp_all add: disjoint_run_op)

text \<open>
  C1 (as amended). \<open>managedPop\<close> on a non-empty heap returns the head chunk, removes that
  chunk from the heap and its id from \<open>heapChunks\<close>; on an empty heap it returns nil and
  changes nothing. It never touches \<open>repairingChunks\<close>: the popped id is not moved there.
  Every sequence of pushes and pops keeps \<open>heapChunks\<close> and \<open>repairingChunks\<close> disjoint.
\<close>

theorem managedPop_contract:
  "(heap uh \<noteq> [] \<longrightarrow>
      fst (managedPop uh) = Some (hd (heap uh)) \<and>
      heapChunks (snd (managedPop uh)) = heapChunks uh - {uuc_id (hd (heap uh))} \<and>
      mset (heap (snd (managedPop uh))) = mset (heap uh) - {#hd (heap uh)#}) \<and>
   (heap uh = [] \<longrightarrow> managedPop uh = (None, uh)) \<and>
   repairingChunks (snd (managedPop uh)) = repairingChunks uh \<and>
   (sets_disjoint uh \<longrightarrow> sets_disjoint (run_ops uh ops))"
proof -
  have ne: "managedPop uh =
      (Some (hd (heap uh)),
       uh\<lparr>heap := snd (heap_Pop (heap uh)),
          heapChunks := heapChunks uh - {uuc_id (hd (heap uh))}\<rparr>)"
    if "heap uh \<noteq> []"
    using heap_Pop_fst[OF that] that by (auto simp: managedPop_def split: prod.splits)
  have c: "mset (heap (snd (managedPop uh))) = mset (heap uh) - {#hd (heap uh)#}"
    if "heap uh \<noteq> []"
    using heap_Pop_mset[OF that] ne[OF that] by simp
  have d: "heap uh = [] \<Longrightarrow> managedPop uh = (None, uh)"
    by (simp add: managedPop_def)
  show ?thesis using ne c d repairing_pop[of uh] disjoint_run_ops[of uh ops] by simp
qed

theorem managedPop_contract_witness:
  "fst (managedPop (managedPush (newUploadHeap {}) (testChunk ''f'' 0 False 0 1)))
     = Some (testChunk ''f'' 0 False 0 1) \<and>
   heapChunks (snd (managedPop (managedPush (newUploadHeap {}) (testChunk ''f'' 0 False 0 1)))) = {} \<and>
   managedPop (newUploadHeap {}) = (None, newUploadHeap {}) \<and>
   sets_disjoint (newUploadHeap {}) \<and>
   sets_disjoint (run_ops (newUploadHeap {}) [OpPush (testChunk ''f'' 0 False 0 1), OpPop])"
proof -
  let ?c = "testChunk ''f'' 0 False 0 1"
  have ne: "heap (managedPush (newUploadHeap {}) ?c) \<noteq> []"
    by (simp add: managedPush_def newUploadHeap_def Push_def)
  have hdc: "hd (heap (managedPush (newUploadHeap {}) ?c)) = ?c"
    by (simp add: managedPush_def newUploadHeap_def Push_def)
  have hc: "heapChunks (managedPush (newUploadHeap {}) ?c) = {uuc_id ?c}"
    by (simp add: managedPush_def newUploadHeap_def Push_def)
  have e: "heap (newUploadHeap {}) = []" by (simp add: newUploadHeap_def)
  have dj: "sets_disjoint (newUploadHeap {})" by (simp add: sets_disjoint_def newUploadHeap_def)
  show ?thesis
    using managedPop_contract[of "managedPush (newUploadHeap {}) ?c" "[]"]
          managedPop_contract[of "newUploadHeap {}" "[OpPush ?c, OpPop]"]
          ne hdc hc e dj
    by simp
qed

theorem managedPop_repairing_counterexample:
  "uuc_id (testChunk ''f'' 0 False 0 1) \<notin>
     repairingChunks (snd (managedPop (managedPush (newUploadHeap {}) (testChunk ''f'' 0 False 0 1)))) \<and>
   heap (managedPush (snd (managedPop (managedPush (newUploadHeap {}) (testChunk ''f'' 0 False 0 1))))
          (testChunk ''f'' 0 False 0 1)) = [testChunk ''f'' 0 False 0 1]"
  by (simp add: heap_eval)

text \<open>
  C5 (as amended). \<open>Less\<close> puts a stuck chunk strictly before a chunk that is not stuck,
  and orders two chunks of the same class by the lower float64 quotient
  \<open>piecesCompleted / piecesNeeded\<close>; for piece counts between 0 and \<open>2^26\<close> that is
  the order of the exact quotients. Two chunks of equal key are not ordered at all (no
  tie-break, \<open>Less\<close> is false both ways). Pushing (stuck, 1/1), (stuck, 2/1),
  (unstuck, 1/1), (unstuck, 2/1) into an empty heap and popping four times returns them in
  that order.
\<close>

theorem Less_order:
  "(uuc_stuck (uch ! i) \<and> \<not> uuc_stuck (uch ! j) \<longrightarrow> Less uch i j \<and> \<not> Less uch j i) \<and>
   (uuc_stuck (uch ! i) = uuc_stuck (uch ! j) \<longrightarrow>
      Less uch i j = flt (ratio (uch ! i)) (ratio (uch ! j))) \<and>
   (uuc_stuck (uch ! i) = uuc_stuck (uch ! j) \<and>
    0 < uuc_piecesNeeded (uch ! i) \<and> uuc_piecesNeeded (uch ! i) \<le> 2 ^ 26 \<and>
    0 < uuc_piecesNeeded (uch ! j) \<and> uuc_piecesNeeded (uch ! j) \<le> 2 ^ 26 \<and>
    0 \<le> uuc_piecesCompleted (uch ! i) \<and> uuc_piecesCompleted (uch ! i) \<le> 2 ^ 26 \<and>
    0 \<le> uuc_piecesCompleted (uch ! j) \<and> uuc_piecesCompleted (uch ! j) \<le> 2 ^ 26 \<longrightarrow>
      Less uch i j =
        (real_of_int (uuc_piecesCompleted (uch ! i)) / real_of_int (uuc_piecesNeeded (uch ! i))
         < real_of_int (uuc_piecesCompleted (uch ! j)) / real_of_int (uuc_piecesNeeded (uch ! j)))) \<and>
   (uuc_stuck (uch ! i) = uuc_stuck (uch ! j) \<and> ratio (uch ! i) = ratio (uch ! j) \<longrightarrow>
      \<not> Less uch i j \<and> \<not> Less uch j i) \<and>
   pops 4 (run_ops (newUploadHeap {})
             [OpPush (testChunk ''stuck'' 1 True 1 1), OpPush (testChunk ''stuck'' 2 True 2 1),
              OpPush (testChunk ''unstuck'' 1 False 1 1), OpPush (testChunk ''unstuck'' 2 False 2 1)])
     = [Some (testChunk ''stuck'' 1 True 1 1), Some (testChunk ''stuck'' 2 True 2 1),
        Some (testChunk ''unstuck'' 1 False 1 1), Some (testChunk ''unstuck'' 2 False 2 1)]"
proof -
  have irr: "\<not> flt x x" for x by (cases x) simp_all
  have a: "uuc_stuck (uch ! i) \<and> \<not> uuc_stuck (uch ! j) \<longrightarrow> Less uch i j \<and> \<not> Less uch j i"
    by (simp add: Less_def chunk_less_def)
  have b: "uuc_stuck (uch ! i) = uuc_stuck (uch ! j) \<longrightarrow>
      Less uch i j = flt (ratio (uch ! i)) (ratio (uch ! j))"
    by (simp add: Less_def chunk_less_def)
  have c: "uuc_stuck (uch ! i) = uuc_stuck (uch ! j) \<and>
    0 < uuc_piecesNeeded (uch ! i) \<and> uuc_piecesNeeded (uch ! i) \<le> 2 ^ 26 \<and>
    0 < uuc_piecesNeeded (uch ! j) \<and> uuc_piecesNeeded (uch ! j) \<le> 2 ^ 26 \<and>
    0 \<le> uuc_piecesCompleted (uch ! i) \<and> uuc_piecesCompleted (uch ! i) \<le> 2 ^ 26 \<and>
    0 \<le> uuc_piecesCompleted (uch ! j) \<and> uuc_piecesCompleted (uch ! j) \<le> 2 ^ 26 \<longrightarrow>
      Less uch i j =
        (real_of_int (uuc_piecesCompleted (uch ! i)) / real_of_int (uuc_piecesNeeded (uch ! i))
         < real_of_int (uuc_piecesCompleted (uch ! j)) / real_of_int (uuc_piecesNeeded (uch ! j)))"
    using fdiv_small[of "uuc_piecesCompleted (uch ! i)" "uuc_piecesNeeded (uch ! i)"
                        "uuc_piecesCompleted (uch ! j)" "uuc_piecesNeeded (uch ! j)"]
    by (simp add: Less_def chunk_less_def ratio_def)
  have d: "uuc_stuck (uch ! i) = uuc_stuck (uch ! j) \<and> ratio (uch ! i) = ratio (uch ! j) \<longrightarrow>
      \<not> Less uch i j \<and> \<not> Less uch j i"
    using irr by (simp add: Less_def chunk_less_def)
  have e: "pops 4 (run_ops (newUploadHeap {})
             [OpPush (testChunk ''stuck'' 1 True 1 1), OpPush (testChunk ''stuck'' 2 True 2 1),
              OpPush (testChunk ''unstuck'' 1 False 1 1), OpPush (testChunk ''unstuck'' 2 False 2 1)])
     = [Some (testChunk ''stuck'' 1 True 1 1), Some (testChunk ''stuck'' 2 True 2 1),
        Some (testChunk ''unstuck'' 1 False 1 1), Some (testChunk ''unstuck'' 2 False 2 1)]"
    by (simp add: heap_eval)
  show ?thesis using a b c d e by blast
qed

theorem Less_order_witness:
  "Less [testChunk ''a'' 1 True 2 1, testChunk ''b'' 1 False 1 1] 0 1 \<and>
   \<not> Less [testChunk ''a'' 1 True 2 1, testChunk ''b'' 1 False 1 1] 1 0 \<and>
   Less [testChunk ''a'' 1 False 1 3, testChunk ''b'' 1 False 2 3] 0 1 \<and>
   \<not> Less [testChunk ''a'' 1 False 1 3, testChunk ''b'' 1 False 1 3] 0 1 \<and>
   \<not> Less [testChunk ''a'' 1 False 1 3, testChunk ''b'' 1 False 1 3] 1 0"
  using Less_order[of "[testChunk ''a'' 1 True 2 1, testChunk ''b'' 1 False 1 1]" 0 1]
        Less_order[of "[testChunk ''a'' 1 False 1 3, testChunk ''b'' 1 False 2 3]" 0 1]
        Less_order[of "[testChunk ''a'' 1 False 1 3, testChunk ''b'' 1 False 1 3]" 0 1]
  by (simp add: testChunk_def ratio_def fdiv_def float64_of_int_def float64_quot_def
        roundHalfEven_def bitlen.simps Let_def)

theorem tie_break_counterexample:
  "\<not> chunk_less (testChunk ''f'' 1 False 1 2) (testChunk ''f'' 2 False 1 2) \<and>
   \<not> chunk_less (testChunk ''f'' 2 False 1 2) (testChunk ''f'' 1 False 1 2) \<and>
   pops 3 (run_ops (newUploadHeap {})
             [OpPush (testChunk ''f'' 1 False 1 2), OpPush (testChunk ''f'' 2 False 1 2),
              OpPush (testChunk ''f'' 3 False 1 2)])
     = [Some (testChunk ''f'' 1 False 1 2), Some (testChunk ''f'' 3 False 1 2),
        Some (testChunk ''f'' 2 False 1 2)] \<and>
   pops 3 (run_ops (newUploadHeap {})
             [OpPush (testChunk ''f'' 1 False 1 2), OpPush (testChunk ''f'' 3 False 1 2),
              OpPush (testChunk ''f'' 2 False 1 2)])
     = [Some (testChunk ''f'' 1 False 1 2), Some (testChunk ''f'' 2 False 1 2),
        Some (testChunk ''f'' 3 False 1 2)]"
  by (simp add: heap_eval)

text \<open>
  Beyond that range two different quotients can round to the same float64, and \<open>Less\<close>
  then orders neither before the other: \<open>(2^52 - 1) / 2^52\<close> and \<open>2^52 / (2^52 + 1)\<close>
  both round to \<open>1 - 2^-52\<close>.
\<close>

lemma rounded_quotients_tie:
  "fdiv (2 ^ 52 - 1) (2 ^ 52) = Fin (1 - 1 / 2 ^ 52) \<and>
   fdiv (2 ^ 52) (2 ^ 52 + 1) = Fin (1 - 1 / 2 ^ 52) \<and>
   \<not> chunk_less (testChunk ''f'' 1 False (2 ^ 52 - 1) (2 ^ 52))
                  (testChunk ''f'' 2 False (2 ^ 52) (2 ^ 52 + 1)) \<and>
   \<not> chunk_less (testChunk ''f'' 2 False (2 ^ 52) (2 ^ 52 + 1))
                  (testChunk ''f'' 1 False (2 ^ 52 - 1) (2 ^ 52))"
  by (simp add: chunk_less_def ratio_def testChunk_def fdiv_def float64_of_int_def
        float64_quot_def roundHalfEven_def bitlen.simps Let_def)

text \<open>
  C6. \<open>managedPush\<close> leaves the heap and both id sets as they are when the chunk's id is
  in \<open>heapChunks\<close> or in \<open>repairingChunks\<close>; otherwise it appends the chunk to the heap and
  adds its id to \<open>heapChunks\<close>. After any sequence of pushes and pops on an empty heap the
  ids of the chunks in the heap are pairwise distinct, and they are the set \<open>heapChunks\<close>.
\<close>

theorem managedPush_contract:
  "(uuc_id c \<in> heapChunks uh \<or> uuc_id c \<in> repairingChunks uh \<longrightarrow> managedPush uh c = uh) \<and>
   (uuc_id c \<notin> heapChunks uh \<and> uuc_id c \<notin> repairingChunks uh \<longrightarrow>
      heap (managedPush uh c) = heap uh @ [c] \<and>
      heapChunks (managedPush uh c) = insert (uuc_id c) (heapChunks uh) \<and>
      repairingChunks (managedPush uh c) = repairingChunks uh) \<and>
   distinct (map uuc_id (heap (run_ops (newUploadHeap rc) ops))) \<and>
   set (map uuc_id (heap (run_ops (newUploadHeap rc) ops))) = heapChunks (run_ops (newUploadHeap rc) ops)"
proof -
  have "heap_inv (run_ops (newUploadHeap rc) ops)"
    by (rule heap_inv_run_ops) (rule heap_inv_new)
  then show ?thesis
    by (simp add: heap_inv_def managedPush_def Push_def Let_def)
qed

theorem managedPush_contract_witness:
  "managedPush (managedPush (newUploadHeap {}) (testChunk ''f'' 0 False 0 1)) (testChunk ''f'' 0 True 1 1)
     = managedPush (newUploadHeap {}) (testChunk ''f'' 0 False 0 1) \<and>
   managedPush (newUploadHeap {\<lparr>fileUID = ''f'', index = 0\<rparr>}) (testChunk ''f'' 0 False 0 1)
     = newUploadHeap {\<lparr>fileUID = ''f'', index = 0\<rparr>} \<and>
   heap (managedPush (newUploadHeap {}) (testChunk ''f'' 0 False 0 1)) = [testChunk ''f'' 0 False 0 1] \<and>
   heapChunks (managedPush (newUploadHeap {}) (testChunk ''f'' 0 False 0 1)) = {\<lparr>fileUID = ''f'', index = 0\<rparr>}"
proof -
  let ?c = "testChunk ''f'' 0 False 0 1"
  let ?c' = "testChunk ''f'' 0 True 1 1"
  have a: "uuc_id ?c' \<in> heapChunks (managedPush (newUploadHeap {}) ?c)"
    by (simp add: heap_eval)
  have b: "uuc_id ?c \<in> repairingChunks (newUploadHeap {\<lparr>fileUID = ''f'', index = 0\<rparr>})"
    by (simp add: newUploadHeap_def testChunk_def)
  have c: "uuc_id ?c \<notin> heapChunks (newUploadHeap {}) \<and> uuc_id ?c \<notin> repairingChunks (newUploadHeap {})"
    by (simp add: newUploadHeap_def)
  have d: "heap (newUploadHeap {}) = [] \<and> heapChunks (newUploadHeap {}) = {}"
    by (simp add: newUploadHeap_def)
  have e: "uuc_id ?c = \<lparr>fileUID = ''f'', index = 0\<rparr>" by (simp add: testChunk_def)
  show ?thesis
    using managedPush_contract[of ?c' "managedPush (newUploadHeap {}) ?c" "{}" "[]"]
          managedPush_contract[of ?c "newUploadHeap {\<lparr>fileUID = ''f'', index = 0\<rparr>}" "{}" "[]"]
          managedPush_contract[of ?c "newUploadHeap {}" "{}" "[]"]
          a b c d e
    by simp
qed

text \<open>
  \<open>managedPush\<close> appends with the slice's own \<open>Push\<close> and does not sift the new
  element up, so the root is the chunk pushed first, whatever its key: an unstuck chunk
  pushed before a stuck one is popped before it.
\<close>

lemma pop_after_unsifted_push:
  "pops 2 (run_ops (newUploadHeap {})
             [OpPush (testChunk ''f'' 1 False 1 2), OpPush (testChunk ''f'' 2 True 1 2)])
     = [Some (testChunk ''f'' 1 False 1 2), Some (testChunk ''f'' 2 True 1 2)]"
  by (simp add: heap_eval)

section \<open>Properties of downloads\<close>

lemma call_fields:
  "err (call now f d) = err d"
  "completeChan_closed (call now f d) = completeChan_closed d"
  "downloadCompleteFuncs (call now f d) = downloadCompleteFuncs d"
  "chunksRemaining (call now f d) = chunksRemaining d"
  by (simp_all add: call_def Let_def split: completeFunc.splits)

lemma foldl_call_fields:
  "err (foldl (\<lambda>acc f. call now f acc) d fs) = err d \<and>
   completeChan_closed (foldl (\<lambda>acc f. call now f acc) d fs) = completeChan_closed d \<and>
   chunksRemaining (foldl (\<lambda>acc f. call now f acc) d fs) = chunksRemaining d"
  by (induction fs arbitrary: d) (simp_all add: call_fields)

lemma markComplete_fresh:
  "\<not> staticComplete d \<Longrightarrow>
     fst (markComplete debug now d) = False \<and>
     staticComplete (snd (markComplete debug now d)) \<and>
     err (snd (markComplete debug now d)) = err d \<and>
     downloadCompleteFuncs (snd (markComplete debug now d)) = []"
  using foldl_call_fields[of now d "downloadCompleteFuncs d"]
  by (simp add: markComplete_def staticComplete_def Let_def)

text \<open>
  C9. Cancelling a download that is already complete returns the download as it was: the
  same error, still complete, no completion function run again. Cancelling a second time
  changes nothing that the first cancel left. A report through \<open>build.Critical\<close> is
  raised exactly when the download had completed without an error.
\<close>

theorem managedCancel_idempotent:
  "(staticComplete d \<longrightarrow> snd (managedCancel debug now d) = d) \<and>
   snd (managedCancel debug now' (snd (managedCancel debug now d))) = snd (managedCancel debug now d) \<and>
   fst (managedCancel debug now d) = (staticComplete d \<and> err d = None)"
proof -
  have a: "staticComplete d \<Longrightarrow> managedCancel debug now d = (err d = None, d)"
    by (simp add: managedCancel_def managedFail_def Let_def)
  have b: "staticComplete d2 \<Longrightarrow> snd (managedCancel debug now' d2) = d2" for d2
    by (simp add: managedCancel_def managedFail_def Let_def)
  have c: "staticComplete (snd (managedCancel debug now d))"
  proof (cases "staticComplete d")
    case True
    then show ?thesis using a by simp
  next
    case False
    then have "\<not> staticComplete (d\<lparr>err := Some ErrDownloadCancelled\<rparr>)"
      by (simp add: staticComplete_def)
    from markComplete_fresh[OF this, of debug now] False show ?thesis
      by (simp add: managedCancel_def managedFail_def Let_def)
  qed
  have d: "fst (managedCancel debug now d) = (staticComplete d \<and> err d = None)"
  proof (cases "staticComplete d")
    case True
    then show ?thesis using a by simp
  next
    case False
    then have "\<not> staticComplete (d\<lparr>err := Some ErrDownloadCancelled\<rparr>)"
      by (simp add: staticComplete_def)
    from markComplete_fresh[OF this, of debug now] False show ?thesis
      by (simp add: managedCancel_def managedFail_def Let_def)
  qed
  show ?thesis using a b[OF c] d by simp
qed

theorem managedCancel_idempotent_witness:
  "staticComplete doneDownload \<and> snd (managedCancel False 9 doneDownload) = doneDownload"
  using managedCancel_idempotent[of doneDownload False 9 9]
  by (simp add: doneDownload_def staticComplete_def)

lemma newDownload_planned:
  "markComplete debug now (onComplete now SetEndTime (newDownload now params f)) =
     (False, (newDownload now params f)
        \<lparr>executed := [(SetEndTime, None)], endTime := now, completeChan_closed := True\<rparr>)"
  by (simp add: markComplete_def onComplete_def newDownload_def staticComplete_def call_def Let_def)

lemma managedNewDownload_zero:
  assumes "dp_file params = Some f" "dp_length params = 0" "dp_offset params \<le> Size f"
    "dp_offset params < 2 ^ 64"
  shows "managedNewDownload debug now params =
     Inr ((newDownload now params f)
            \<lparr>executed := [(SetEndTime, None)], endTime := now, completeChan_closed := True\<rparr>, [])"
proof -
  have "u64_add (dp_offset params) (dp_length params) = dp_offset params"
    using assms by (simp add: u64_add_def)
  moreover have "staticLength (onComplete now SetEndTime (newDownload now params f)) = 0"
    using assms by (simp add: onComplete_def newDownload_def)
  ultimately show ?thesis
    using assms newDownload_planned[of debug now params f]
    by (simp add: managedNewDownload_def Let_def)
qed

text \<open>
  C10. A download of length 0 whose offset lies within the file is complete when
  \<open>managedNewDownload\<close> returns it: its error is nil, the only completion function
  registered so far has run, no chunk is counted as remaining and no
  \<open>unfinishedDownloadChunk\<close> has been built or queued. Through \<open>Renter.managedDownload\<close>
  the same holds for every request whose resolved length is 0, and \<open>Download\<close> on a
  renter that is not shutting down returns nil without blocking.
\<close>

theorem zero_length_download_complete:
  "(dp_file params = Some f \<and> dp_length params = 0 \<and> dp_offset params \<le> Size f \<and>
    dp_offset params < 2 ^ 64 \<longrightarrow>
      (\<exists>d. managedNewDownload debug now params = Inr (d, []) \<and>
           staticComplete d \<and> err d = None \<and> chunksRemaining d = 0 \<and>
           downloadCompleteFuncs d = [] \<and> executed d = [(SetEndTime, None)])) \<and>
   (fileSet_Open env (rp_SiaPath p) = Inr entry \<and> resolvedLength entry p = 0 \<and>
    rp_Offset p < 2 ^ 64 \<and>
    Renter_managedDownload env now p = Inr (d', udcs, h) \<longrightarrow>
      udcs = [] \<and> staticComplete d' \<and> err d' = None \<and> chunksRemaining d' = 0 \<and>
      executed d' = [(SetEndTime, None), (CloseDestination, None)] \<and>
      (\<not> tg_stopped env \<and> \<not> stopAtSelect \<longrightarrow>
         Download env now stopAtSelect pick p = Returns None))"
proof -
  let ?done = "\<lambda>params f. (newDownload now params f)
        \<lparr>executed := [(SetEndTime, None)], endTime := now, completeChan_closed := True\<rparr>"
  have one: "\<exists>d. managedNewDownload debug now params = Inr (d, []) \<and>
           staticComplete d \<and> err d = None \<and> chunksRemaining d = 0 \<and>
           downloadCompleteFuncs d = [] \<and> executed d = [(SetEndTime, None)]"
    if "dp_file params = Some f" "dp_length params = 0" "dp_offset params \<le> Size f"
       "dp_offset params < 2 ^ 64"
    using managedNewDownload_zero[OF that, of debug now]
    by (simp add: staticComplete_def newDownload_def)
  have two: "udcs = [] \<and> staticComplete d' \<and> err d' = None \<and> chunksRemaining d' = 0 \<and>
      executed d' = [(SetEndTime, None), (CloseDestination, None)] \<and>
      (\<not> tg_stopped env \<and> \<not> stopAtSelect \<longrightarrow>
         Download env now stopAtSelect pick p = Returns None)"
    if op: "fileSet_Open env (rp_SiaPath p) = Inr entry" and rl: "resolvedLength entry p = 0"
      and off: "rp_Offset p < 2 ^ 64"
      and md: "Renter_managedDownload env now p = Inr (d', udcs, h)"
  proof -
    from md op rl obtain snap dt d0 where
      nd: "managedNewDownload (build_DEBUG env) now
              \<lparr>dp_destinationType = dt,
               dp_destinationString = rp_Destination p,
               dp_file = Some snap,
               dp_latencyTarget = 25000 * 1000000,
               dp_length = 0,
               dp_needsMemory = True,
               dp_offset = rp_Offset p,
               dp_overdrive = 3,
               dp_priority = 5\<rparr> = Inr (d0, udcs)"
      and d': "d' = onComplete now CloseDestination d0"
      by (auto simp: Renter_managedDownload_def Let_def
               split: if_splits sum.splits option.splits prod.splits)
    from nd have d0: "d0 = ?done \<lparr>dp_destinationType = dt,
               dp_destinationString = rp_Destination p,
               dp_file = Some snap,
               dp_latencyTarget = 25000 * 1000000,
               dp_length = 0,
               dp_needsMemory = True,
               dp_offset = rp_Offset p,
               dp_overdrive = 3,
               dp_priority = 5\<rparr> snap" and u: "udcs = []"
      by (auto simp: managedNewDownload_def Let_def onComplete_def newDownload_def
                     markComplete_def call_def staticComplete_def
               split: if_splits)
    have props: "staticComplete d' \<and> err d' = None \<and> chunksRemaining d' = 0 \<and>
      executed d' = [(SetEndTime, None), (CloseDestination, None)]"
      unfolding d' d0
      by (simp add: onComplete_def call_def newDownload_def staticComplete_def Let_def)
    have "Download env now stopAtSelect pick p = Returns None"
      if "\<not> tg_stopped env" "\<not> stopAtSelect"
      using that md props by (simp add: Download_def Err_def)
    then show ?thesis using props u by blast
  qed
  show ?thesis using one two by blast
qed

lemma wholeFile_planned:
  "Renter_managedDownload emptyFileEnv 3 wholeFileRequest =
     Inr ((newDownload 3 zeroLengthParams emptySnapshot)
            \<lparr>executed := [(SetEndTime, None), (CloseDestination, None)], endTime := 3,
               completeChan_closed := True\<rparr>, [], True)"
  by (simp add: Renter_managedDownload_def emptyFileEnv_def wholeFileRequest_def
        resolvedLength_def u64_sub_def u64_add_def managedNewDownload_def emptySnapshot_def
        Size_def u64_of_int_def onComplete_def newDownload_def markComplete_def call_def
        staticComplete_def zeroLengthParams_def Let_def)

theorem zero_length_download_complete_witness:
  "Download emptyFileEnv 3 False True wholeFileRequest = Returns None \<and>
   (\<exists>d. managedNewDownload True 3 zeroLengthParams = Inr (d, []) \<and> staticComplete d \<and> err d = None)"
proof -
  have a: "dp_file zeroLengthParams = Some emptySnapshot \<and> dp_length zeroLengthParams = 0 \<and>
           dp_offset zeroLengthParams \<le> Size emptySnapshot \<and> dp_offset zeroLengthParams < 2 ^ 64"
    by (simp add: zeroLengthParams_def)
  have b: "fileSet_Open emptyFileEnv (rp_SiaPath wholeFileRequest) =
             Inr \<lparr>entry_Size = 0, entry_Snapshot = Inr emptySnapshot\<rparr>"
    by (simp add: emptyFileEnv_def wholeFileRequest_def)
  have c: "resolvedLength \<lparr>entry_Size = 0, entry_Snapshot = Inr emptySnapshot\<rparr> wholeFileRequest = 0"
    by (simp add: resolvedLength_def wholeFileRequest_def u64_sub_def)
  have d: "rp_Offset wholeFileRequest < 2 ^ 64 \<and> \<not> tg_stopped emptyFileEnv"
    by (simp add: wholeFileRequest_def emptyFileEnv_def)
  show ?thesis
    using zero_length_download_complete[of zeroLengthParams emptySnapshot True 3 emptyFileEnv
            wholeFileRequest "\<lparr>entry_Size = 0, entry_Snapshot = Inr emptySnapshot\<rparr>" _ "[]" True
            False True]
          a b c d wholeFile_planned
    by blast
qed

subsection \<open>The download planner\<close>

lemma ChunkSize_lt: "ChunkSize f < 2 ^ 64"
  by (simp add: ChunkSize_def u64_mul_def)

lemma Size_lt: "Size f < 2 ^ 64"
  by (simp add: Size_def u64_of_int_def nat_less_iff)

lemma u64_sub_exact:
  assumes "b \<le> a" "a < 2 ^ 64"
  shows "u64_sub a b = a - b"
proof -
  have lt: "b < 2 ^ 64" using assms by (rule le_less_trans)
  have "a + 2 ^ 64 - b = (a - b) + 2 ^ 64" using assms(1) by (rule Nat.add_diff_assoc2[symmetric])
  then have "u64_sub a b = ((a - b) + 2 ^ 64) mod 2 ^ 64"
    unfolding u64_sub_def mod_less[OF lt] by (rule arg_cong)
  also have "\<dots> = (a - b) mod 2 ^ 64" by (rule mod_add_self2)
  also have "\<dots> = a - b" using assms(2) by (intro mod_less less_imp_diff_less)
  finally show ?thesis .
qed

lemma u64_add_exact: "a + b < 2 ^ 64 \<Longrightarrow> u64_add a b = a + b"
  by (simp add: u64_add_def)

lemma chunkMapsOf_ok:
  "\<forall>i \<in> set is. i < NumChunks f \<Longrightarrow>
     \<exists>ms. chunkMapsOf f is = Inr ms \<and> length ms = length is"
  by (induction "is") (auto simp: Pieces_def NumChunks_def)

lemma newChunk_ok:
  "0 \<le> NumPieces (staticErasureCode f) \<Longrightarrow>
     \<exists>u. newChunk params f mn mno mx mxo m i wo = Inr u"
  by (simp add: newChunk_def Let_def)

lemma queueChunks_ok:
  "0 \<le> NumPieces (staticErasureCode f) \<Longrightarrow>
     \<exists>udcs. queueChunks params f mn mno mx mxo xs wo = Inr udcs \<and> length udcs = length xs"
proof (induction xs arbitrary: wo)
  case Nil
  then show ?case by simp
next
  case (Cons x xs)
  obtain i m where x: "x = (i, m)" by (cases x)
  from newChunk_ok[OF Cons.prems] obtain u where
    u: "newChunk params f mn mno mx mxo m i wo = Inr u" by blast
  from Cons.IH[OF Cons.prems] obtain udcs where
    "queueChunks params f mn mno mx mxo xs (s64 (wo + s64 (int (staticFetchLength u)))) = Inr udcs"
    "length udcs = length xs" by blast
  then show ?case by (simp add: x u)
qed

lemma queueChunks_nth:
  "queueChunks params f mn mno mx mxo xs wo = Inr udcs \<Longrightarrow> k < length xs \<Longrightarrow>
     \<exists>wo'. newChunk params f mn mno mx mxo (snd (xs ! k)) (fst (xs ! k)) wo' = Inr (udcs ! k)"
proof (induction xs arbitrary: wo k udcs)
  case Nil
  then show ?case by simp
next
  case (Cons x xs)
  obtain i m where x: "x = (i, m)" by (cases x)
  from Cons.prems(1) obtain u rest where
    u: "newChunk params f mn mno mx mxo m i wo = Inr u"
    and r: "queueChunks params f mn mno mx mxo xs (s64 (wo + s64 (int (staticFetchLength u)))) = Inr rest"
    and udcs: "udcs = u # rest"
    by (auto simp: x split: sum.splits)
  show ?case
  proof (cases k)
    case 0
    then show ?thesis using x u udcs by auto
  next
    case (Suc k')
    then have "k' < length xs" using Cons.prems by simp
    from Cons.IH[OF r this] Suc x udcs show ?thesis by simp
  qed
qed

lemma newChunk_fields:
  assumes "newChunk params f mn mno mx mxo m i wo = Inr u"
  shows "staticChunkIndex u = i"
    and "staticChunkSize u = ChunkSize f"
    and "staticFetchOffset u = (if i = mn then mno else 0)"
    and "staticFetchLength u =
     (if i = mx \<and> mxo \<noteq> 0 then u64_sub mxo (if i = mn then mno else 0)
      else u64_sub (ChunkSize f) (if i = mn then mno else 0))"
  using assms by (auto simp: newChunk_def Let_def split: if_splits)

lemma div_add_rem: "r < cs \<Longrightarrow> (q * cs + r) div cs = (q::nat)"
  by simp

lemma maxChunk_ceil:
  fixes cs e :: nat
  assumes "0 < cs" "0 < e"
  shows "Suc (if 0 < e div cs \<and> e mod cs = 0 then e div cs - 1 else e div cs) = (e + cs - 1) div cs"
proof (cases "e mod cs = 0")
  case True
  then obtain q where q: "e = q * cs" by (metis div_mult_mod_eq add.right_neutral)
  then have qpos: "0 < q" using assms by (cases q) auto
  have "e div cs = q" using q assms by simp
  moreover have "(e + cs - 1) div cs = q"
  proof -
    have "e + cs - 1 = q * cs + (cs - 1)" using q assms by simp
    then show ?thesis using div_add_rem[of "cs - 1" cs q] assms by simp
  qed
  ultimately show ?thesis using True qpos by simp
next
  case False
  let ?q = "e div cs"
  obtain r' where r': "e mod cs = Suc r'" using False by (cases "e mod cs") auto
  have lt: "r' < cs" using r' assms mod_less_divisor[of cs e] by simp
  have "e = ?q * cs + Suc r'" using r' by (metis div_mult_mod_eq)
  then have "e + cs - 1 = (?q + 1) * cs + r'" by simp
  moreover have "((?q + 1) * cs + r') div cs = ?q + 1"
    using lt by (rule div_add_rem)
  ultimately have "(e + cs - 1) div cs = ?q + 1" by presburger
  then show ?thesis using False by simp
qed

lemma ceil_le_NumChunks:
  fixes cs e n :: nat
  assumes "0 < cs" "e \<le> n * cs"
  shows "(e + cs - 1) div cs \<le> n"
proof -
  have "(e + cs - 1) div cs \<le> (n * cs + (cs - 1)) div cs"
    using assms by (intro div_le_mono) simp
  also have "\<dots> = n" using assms by (intro div_add_rem) simp
  finally show ?thesis .
qed

lemma mn_le_mx:
  fixes c off e :: nat
  assumes "0 < c" "off < e"
  shows "off div c \<le> (if 0 < e div c \<and> e mod c = 0 then e div c - 1 else e div c)"
proof (cases "0 < e div c \<and> e mod c = 0")
  case True
  then have "e = (e div c) * c" by (metis div_mult_mod_eq add.right_neutral)
  then have "off < (e div c) * c" using assms by simp
  then have "off div c < e div c" using assms(1) by (simp add: less_mult_imp_div_less)
  then show ?thesis using True by simp
next
  case False
  have "off div c \<le> e div c" using assms by (simp add: div_le_mono)
  then show ?thesis using False by auto
qed

lemma last_end:
  fixes c e :: nat
  assumes "0 < c" "0 < e"
  shows "(if e mod c \<noteq> 0
          then (if 0 < e div c \<and> e mod c = 0 then e div c - 1 else e div c) * c + e mod c
          else ((if 0 < e div c \<and> e mod c = 0 then e div c - 1 else e div c) + 1) * c) = e"
proof (cases "e mod c = 0")
  case True
  then have eq: "e = (e div c) * c" by (metis div_mult_mod_eq add.right_neutral)
  then have "0 < e div c" using assms by (cases "e div c") auto
  then have "(e div c - 1 + 1) * c = e" using eq by simp
  then show ?thesis using True \<open>0 < e div c\<close> by simp
next
  case False
  then show ?thesis by simp
qed

lemma same_chunk:
  fixes c off e :: nat
  assumes "off < e" "off div c = e div c"
  shows "off mod c < e mod c"
proof -
  have "off = (off div c) * c + off mod c" "e = (e div c) * c + e mod c" by simp_all
  then show ?thesis using assms by (metis nat_add_left_cancel_less)
qed

text \<open>
  C8. For a request of positive length that lies within the file (a file whose chunks
  cover its size, whose chunk size is not 0 and whose erasure code has a number of pieces
  that is not negative; its chunks are a Go slice, so there are fewer than \<open>2^63\<close>),
  \<open>managedNewDownload\<close> queues one chunk for each index from \<open>offset div chunkSize\<close> up to, and not including, the
  ceiling of \<open>(offset + length) / chunkSize\<close>. When the range ends on a chunk boundary the
  chunk that starts there is not among them. The fetch windows of the chunks are not
  empty, stay inside their chunk, begin at \<open>offset\<close>, end at \<open>offset + length\<close>, and each
  begins where the previous one ends.
\<close>

theorem planner_chunk_range:
  assumes fl: "dp_file params = Some f"
    and len: "0 < dp_length params"
    and inside: "dp_offset params + dp_length params \<le> Size f"
    and cs: "0 < ChunkSize f"
    and cover: "Size f \<le> NumChunks f * ChunkSize f"
    and slice: "NumChunks f < 2 ^ 63"
    and np: "0 \<le> NumPieces (staticErasureCode f)"
  shows "\<exists>d udcs. managedNewDownload debug now params = Inr (d, udcs) \<and>
      map staticChunkIndex udcs =
        [dp_offset params div ChunkSize f ..<
         (dp_offset params + dp_length params + ChunkSize f - 1) div ChunkSize f] \<and>
      ((dp_offset params + dp_length params) mod ChunkSize f = 0 \<longrightarrow>
         (dp_offset params + dp_length params) div ChunkSize f \<notin> staticChunkIndex ` set udcs) \<and>
      udcs \<noteq> [] \<and>
      windowStart (hd udcs) = dp_offset params \<and>
      windowEnd (last udcs) = dp_offset params + dp_length params \<and>
      (\<forall>k. Suc k < length udcs \<longrightarrow> windowStart (udcs ! Suc k) = windowEnd (udcs ! k)) \<and>
      (\<forall>u \<in> set udcs. 0 < staticFetchLength u \<and>
                        staticFetchOffset u + staticFetchLength u \<le> ChunkSize f) \<and>
      chunksRemaining d = length udcs"
proof -
  define c where "c = ChunkSize f"
  define off where "off = dp_offset params"
  define e where "e = dp_offset params + dp_length params"
  define mn where "mn = off div c"
  define mno where "mno = off mod c"
  define mx0 where "mx0 = e div c"
  define mxo where "mxo = e mod c"
  define mx where "mx = (if 0 < mx0 \<and> mxo = 0 then mx0 - 1 else mx0)"
  have cpos: "0 < c" using cs by (simp add: c_def)
  have clt: "c < 2 ^ 64" using ChunkSize_lt by (simp add: c_def)
  have elt: "e < 2 ^ 64" using inside Size_lt[of f] by (simp add: e_def)
  have epos: "0 < e" and offe: "off < e" using len by (simp_all add: e_def off_def)
  have sum: "u64_add (dp_offset params) (dp_length params) = e"
    using elt by (simp add: u64_add_exact e_def)
  have top: "Suc mx = (e + c - 1) div c"
    unfolding mx_def mx0_def mxo_def using maxChunk_ceil[OF cpos epos] .
  have off_eq: "mn * c + mno = off" by (simp add: mn_def mno_def)
  have mno_lt: "mno < c" and mxo_lt: "mxo < c" using cpos by (simp_all add: mno_def mxo_def)
  have mn_le: "mn \<le> mx"
    unfolding mn_def mx_def mx0_def mxo_def using mn_le_mx[OF cpos offe] .
  have mx_lt: "mx < NumChunks f"
  proof -
    have "e \<le> NumChunks f * c" using inside cover by (simp add: e_def c_def)
    from ceil_le_NumChunks[OF cpos this] top show ?thesis by simp
  qed
  have last_e: "(if mxo \<noteq> 0 then mx * c + mxo else (mx + 1) * c) = e"
    unfolding mx_def mx0_def mxo_def using last_end[OF cpos epos] .
  have same: "mno < mxo" if "mn = mx" "mxo \<noteq> 0"
  proof -
    have "mx = mx0" using that by (simp add: mx_def)
    then have "off div c = e div c" using that by (simp add: mn_def mx0_def)
    from same_chunk[OF offe this] show ?thesis by (simp add: mno_def mxo_def)
  qed
  obtain ms where ms: "chunkMapsOf f [mn ..< Suc mx] = Inr ms"
    and lms: "length ms = length [mn ..< Suc mx]"
    using chunkMapsOf_ok[of "[mn ..< Suc mx]" f] mx_lt by (auto simp del: upt_Suc)
  define xs where "xs = zip [mn ..< Suc mx] ms"
  from queueChunks_ok[OF np, of params mn mno mx mxo xs 0] obtain udcs where
    q: "queueChunks params f mn mno mx mxo xs 0 = Inr udcs" and lq: "length udcs = length xs"
    by blast
  define d where "d = (onComplete now SetEndTime (newDownload now params f))
                        \<lparr>chunksRemaining := Suc mx - mn\<rparr>"
  have lxs: "length xs = Suc mx - mn" using lms by (simp add: xs_def del: upt_Suc)
  have ludcs: "length udcs = Suc mx - mn" by (simp add: lq lxs)
  have fst_xs: "fst (xs ! k) = mn + k" if "k < Suc mx - mn" for k
    using that lms by (simp add: xs_def del: upt_Suc)
  have remaining: "u64_add 0 (u64_add (u64_sub mx mn) 1) = Suc mx - mn"
  proof -
    have "e \<le> e * c" using cpos by simp
    from ceil_le_NumChunks[OF cpos this] top have "Suc mx \<le> e" by simp
    then have b: "Suc mx < 2 ^ 64" using elt by simp
    then have "u64_sub mx mn = mx - mn" using mn_le by (simp add: u64_sub_exact)
    moreover have "mx - mn + 1 < 2 ^ 64" using b by simp
    ultimately show ?thesis using mn_le by (simp add: u64_add_exact)
  qed
  \<comment> \<open>the planner's control flow\<close>
  have fresh: "chunksRemaining (onComplete now SetEndTime (newDownload now params f)) = 0"
    "staticLength (onComplete now SetEndTime (newDownload now params f)) = dp_length params"
    by (simp_all add: onComplete_def newDownload_def)
  have ci1: "ChunkIndexByOffset f (dp_offset params) = Inr (mn, mno)"
    using cs by (simp add: ChunkIndexByOffset_def mn_def mno_def off_def c_def)
  have ci2: "ChunkIndexByOffset f e = Inr (mx0, mxo)"
    using cs by (simp add: ChunkIndexByOffset_def mx0_def mxo_def c_def)
  have bounds: "\<not> (mn = NumChunks f \<or> mx = NumChunks f)" using mn_le mx_lt by simp
  have remaining': "u64_add (u64_sub mx mn) 1 = Suc mx - mn"
    using remaining by (simp add: u64_add_def)
  have fits: "\<not> 2 ^ 63 \<le> u64_add (u64_sub mx mn) 1"
    unfolding remaining' using mx_lt slice by simp
  have run: "managedNewDownload debug now params = Inr (d, udcs)"
    unfolding managedNewDownload_def fl option.case sum fresh Let_def ci1 ci2 sum.case
      prod.case mx_def[symmetric] if_not_P[OF bounds] if_not_P[OF fits] ms remaining
      q[unfolded xs_def]
    using inside len by (simp add: e_def d_def del: upt_Suc)
  \<comment> \<open>the fields of the k-th chunk\<close>
  have idx: "staticChunkIndex (udcs ! k) = mn + k"
    and csz: "staticChunkSize (udcs ! k) = c"
    and fo: "staticFetchOffset (udcs ! k) = (if k = 0 then mno else 0)"
    and fl_k: "staticFetchLength (udcs ! k) =
        (if mn + k = mx \<and> mxo \<noteq> 0 then mxo - (if k = 0 then mno else 0)
         else c - (if k = 0 then mno else 0))"
    if k: "k < Suc mx - mn" for k
  proof -
    from queueChunks_nth[OF q, of k] k lxs obtain wo' where
      u: "newChunk params f mn mno mx mxo (snd (xs ! k)) (mn + k) wo' = Inr (udcs ! k)"
      using fst_xs[OF k] by auto
    note nf = newChunk_fields[OF u]
    show "staticChunkIndex (udcs ! k) = mn + k" by (simp add: nf)
    show "staticChunkSize (udcs ! k) = c" by (simp add: nf c_def)
    show "staticFetchOffset (udcs ! k) = (if k = 0 then mno else 0)"
      by (simp add: nf)
    have s1: "u64_sub mxo mno = mxo - mno" if "mn = mx" "mxo \<noteq> 0"
      using same[OF that] mxo_lt clt by (intro u64_sub_exact) simp_all
    have s2: "u64_sub mxo 0 = mxo" using mxo_lt clt by (simp add: u64_sub_exact)
    have s3: "u64_sub c mno = c - mno" using mno_lt clt by (intro u64_sub_exact) simp_all
    have s4: "u64_sub c 0 = c" using clt by (simp add: u64_sub_exact)
    show "staticFetchLength (udcs ! k) =
        (if mn + k = mx \<and> mxo \<noteq> 0 then mxo - (if k = 0 then mno else 0)
         else c - (if k = 0 then mno else 0))"
      using s1 s2 s3 s4 by (auto simp: nf c_def[symmetric])
  qed
  have flpos: "0 < staticFetchLength (udcs ! k)"
    and inchunk: "staticFetchOffset (udcs ! k) + staticFetchLength (udcs ! k) \<le> c"
    if k: "k < Suc mx - mn" for k
  proof -
    show "0 < staticFetchLength (udcs ! k)"
      using same mno_lt mxo_lt cpos by (auto simp: fl_k[OF k])
    show "staticFetchOffset (udcs ! k) + staticFetchLength (udcs ! k) \<le> c"
      using same mno_lt mxo_lt cpos by (auto simp: fl_k[OF k] fo[OF k] dest: less_imp_le)
  qed
  have wstart: "windowStart (udcs ! k) = (if k = 0 then off else (mn + k) * c)"
    if k: "k < Suc mx - mn" for k
    using off_eq by (simp add: windowStart_def idx[OF k] csz[OF k] fo[OF k])
  have wend: "windowEnd (udcs ! k) = (if mn + k = mx then e else (mn + k + 1) * c)"
    if k: "k < Suc mx - mn" for k
  proof (cases "mn + k = mx")
    case True
    show ?thesis
    proof (cases "mxo = 0")
      case z: True
      have "windowEnd (udcs ! k) = (mx + 1) * c"
        using True z mno_lt off_eq
        by (auto simp: windowEnd_def windowStart_def idx[OF k] csz[OF k] fo[OF k] fl_k[OF k])
      then show ?thesis using True z last_e by simp
    next
      case nz: False
      have "windowEnd (udcs ! k) = mx * c + mxo"
        using True nz same mno_lt
        by (auto simp: windowEnd_def windowStart_def idx[OF k] csz[OF k] fo[OF k] fl_k[OF k]
                 dest: less_imp_le)
      then show ?thesis using True nz last_e by simp
    qed
  next
    case False
    then show ?thesis using mno_lt
      by (auto simp: windowEnd_def windowStart_def idx[OF k] csz[OF k] fo[OF k] fl_k[OF k])
  qed
  \<comment> \<open>the conjuncts\<close>
  have indices: "map staticChunkIndex udcs = [mn ..< Suc mx]"
    by (rule nth_equalityI) (simp_all add: ludcs idx del: upt_Suc)
  have ne: "udcs \<noteq> []" using ludcs mn_le by auto
  have first: "windowStart (hd udcs) = off"
    using ne wstart[of 0] mn_le by (simp add: hd_conv_nth)
  have final: "windowEnd (last udcs) = e"
    using ne wend[of "mx - mn"] mn_le ludcs by (simp add: last_conv_nth)
  have chain: "windowStart (udcs ! Suc k) = windowEnd (udcs ! k)" if "Suc k < length udcs" for k
  proof -
    have k1: "Suc k < Suc mx - mn" and k0: "k < Suc mx - mn" and nl: "mn + k \<noteq> mx"
      using that ludcs by simp_all
    show ?thesis using nl by (simp add: wstart[OF k1] wend[OF k0])
  qed
  have windows: "0 < staticFetchLength u \<and> staticFetchOffset u + staticFetchLength u \<le> c"
    if "u \<in> set udcs" for u
    using that flpos inchunk ludcs by (auto simp: in_set_conv_nth)
  have boundary: "e div c \<notin> staticChunkIndex ` set udcs" if "e mod c = 0"
  proof -
    have "e = mx0 * c" using that by (metis mx0_def div_mult_mod_eq add.right_neutral)
    then have "0 < mx0" using epos by (cases mx0) auto
    then have "e div c = Suc mx" using that by (simp add: mx_def mx0_def mxo_def)
    moreover have "staticChunkIndex ` set udcs = {mn ..< Suc mx}"
      using indices by (metis list.set_map set_upt)
    ultimately show ?thesis by simp
  qed
  have cr: "chunksRemaining d = length udcs" by (simp add: d_def ludcs)
  have indices': "map staticChunkIndex udcs = [off div c ..< (e + c - 1) div c]"
    using indices top by (simp add: mn_def del: upt_Suc)
  have "managedNewDownload debug now params = Inr (d, udcs) \<and>
      map staticChunkIndex udcs = [off div c ..< (e + c - 1) div c] \<and>
      (e mod c = 0 \<longrightarrow> e div c \<notin> staticChunkIndex ` set udcs) \<and>
      udcs \<noteq> [] \<and>
      windowStart (hd udcs) = off \<and>
      windowEnd (last udcs) = e \<and>
      (\<forall>k. Suc k < length udcs \<longrightarrow> windowStart (udcs ! Suc k) = windowEnd (udcs ! k)) \<and>
      (\<forall>u \<in> set udcs. 0 < staticFetchLength u \<and>
                        staticFetchOffset u + staticFetchLength u \<le> c) \<and>
      chunksRemaining d = length udcs"
    using run indices' boundary ne first final chain windows cr by blast
  then show ?thesis unfolding c_def off_def e_def
    by - (rule exI[of _ d], rule exI[of _ udcs], assumption)
qed

theorem planner_chunk_range_witness:
  "\<exists>d udcs. managedNewDownload False 7 firstChunkRequest = Inr (d, udcs) \<and>
      map staticChunkIndex udcs = [0] \<and> 1 \<notin> staticChunkIndex ` set udcs \<and>
      udcs \<noteq> [] \<and> windowStart (hd udcs) = 0 \<and> windowEnd (last udcs) = 100 \<and>
      (\<forall>k. Suc k < length udcs \<longrightarrow> windowStart (udcs ! Suc k) = windowEnd (udcs ! k)) \<and>
      (\<forall>u \<in> set udcs. 0 < staticFetchLength u \<and>
                        staticFetchOffset u + staticFetchLength u \<le> 100) \<and>
      chunksRemaining d = length udcs"
proof -
  have c: "ChunkSize threeChunkSnapshot = 100"
    by (simp add: ChunkSize_def threeChunkSnapshot_def u64_mul_def u64_of_int_def)
  have s: "Size threeChunkSnapshot = 250"
    by (simp add: Size_def threeChunkSnapshot_def u64_of_int_def)
  have n: "NumChunks threeChunkSnapshot = 3"
    by (simp add: NumChunks_def threeChunkSnapshot_def)
  have h: "dp_file firstChunkRequest = Some threeChunkSnapshot"
    "0 < dp_length firstChunkRequest"
    "dp_offset firstChunkRequest + dp_length firstChunkRequest \<le> Size threeChunkSnapshot"
    "0 < ChunkSize threeChunkSnapshot"
    "Size threeChunkSnapshot \<le> NumChunks threeChunkSnapshot * ChunkSize threeChunkSnapshot"
    "NumChunks threeChunkSnapshot < 2 ^ 63"
    "0 \<le> NumPieces (staticErasureCode threeChunkSnapshot)"
    by (simp_all add: c s n) (simp_all add: firstChunkRequest_def threeChunkSnapshot_def)
  have o: "dp_offset firstChunkRequest = 0" "dp_length firstChunkRequest = 100"
    by (simp_all add: firstChunkRequest_def)
  show ?thesis
    using planner_chunk_range[OF h, of False 7] unfolding c o by simp
qed

section \<open>Properties of workers on a download chunk\<close>

text \<open>
  C3. When the slot of the worker's piece exists in the chunk's piece slices,
  \<open>ownedProcessDownloadChunk\<close> does what the three outcomes say: it drops the worker
  (one worker less remaining, nil returned, registration untouched) when the chunk is
  complete or failed, the worker is on cooldown, has no piece, or its piece is completed;
  else it registers the worker (one more piece registered, the slot marked used, the chunk
  returned) when fewer than \<open>K + overdrive\<close> pieces are in progress and the slot is free;
  else it appends the worker to the standby list and returns nil, leaving
  \<open>workersRemaining\<close> as it was. The sum of registered and completed pieces never
  rises above the larger of its old value and \<open>K + overdrive\<close>.
\<close>

theorem ownedProcessDownloadChunk_outcomes:
  assumes "pi_index (pieceDataOf w udc) < length (completedPieces udc)"
    and "pi_index (pieceDataOf w udc) < length (pieceUsage udc)"
  shows "ownedProcessDownloadChunk k now d w udc = Inr (spec_processDownloadChunk k now d w udc) \<and>
     piecesRegistered (snd (spec_processDownloadChunk k now d w udc)) +
       piecesCompleted (snd (spec_processDownloadChunk k now d w udc))
       \<le> max (piecesRegistered udc + piecesCompleted udc)
              (MinPieces (erasureCode udc) + staticOverdrive udc) \<and>
     (\<not> fst (spec_processDownloadChunk k now d w udc) \<and> \<not> spec_drop k now d w udc \<longrightarrow>
        workersRemaining (snd (spec_processDownloadChunk k now d w udc)) = workersRemaining udc)"
proof -
  have a: "ownedProcessDownloadChunk k now d w udc = Inr (spec_processDownloadChunk k now d w udc)"
    using assms
    by (auto simp: ownedProcessDownloadChunk_def spec_processDownloadChunk_def spec_drop_def
          spec_needed_def managedRemoveWorker_def workerHasPiece_def Let_def)
  have b: "piecesRegistered (snd (spec_processDownloadChunk k now d w udc)) +
       piecesCompleted (snd (spec_processDownloadChunk k now d w udc))
       \<le> max (piecesRegistered udc + piecesCompleted udc)
              (MinPieces (erasureCode udc) + staticOverdrive udc)"
    by (auto simp: spec_processDownloadChunk_def spec_needed_def)
  have c: "\<not> fst (spec_processDownloadChunk k now d w udc) \<and> \<not> spec_drop k now d w udc \<longrightarrow>
        workersRemaining (snd (spec_processDownloadChunk k now d w udc)) = workersRemaining udc"
    by (auto simp: spec_processDownloadChunk_def)
  show ?thesis using a b c by blast
qed

lemma cooldown_demo: "\<not> ownedOnDownloadCooldown demoConsts 5000000000 (demoWorker h)"
  by (simp add: ownedOnDownloadCooldown_def demoConsts_def demoWorker_def cooldownLoop.simps)

lemma demoDl_open: "\<not> staticComplete demoDl"
  by (simp add: demoDl_def newDownload_def staticComplete_def)

lemma demo_register:
  "ownedProcessDownloadChunk demoConsts 5000000000 demoDl (demoWorker ''h1'') demoChunk =
     Inr (True, demoRegistered)"
  using cooldown_demo[of "''h1''"] demoDl_open
  by (simp add: ownedProcessDownloadChunk_def pieceDataOf_def workerHasPiece_def
        demoChunk_def demoRegistered_def demoWorker_def Let_def)

lemma demo_standby:
  "ownedProcessDownloadChunk demoConsts 5000000000 demoDl (demoWorker ''h2'') demoRegistered =
     Inr (False, demoRegistered\<lparr>workersStandby := [demoWorker ''h2'']\<rparr>)"
  using cooldown_demo[of "''h2''"] demoDl_open
  by (simp add: ownedProcessDownloadChunk_def pieceDataOf_def workerHasPiece_def
        demoChunk_def demoRegistered_def demoWorker_def Let_def)

lemma demo_drop:
  "ownedProcessDownloadChunk demoConsts 5000000000 demoDl (demoWorker ''h3'') demoRegistered =
     Inr (False, demoRegistered\<lparr>workersRemaining := 1\<rparr>)"
  using cooldown_demo[of "''h3''"] demoDl_open
  by (simp add: ownedProcessDownloadChunk_def pieceDataOf_def workerHasPiece_def
        managedRemoveWorker_def demoChunk_def demoRegistered_def demoWorker_def Let_def)

theorem ownedProcessDownloadChunk_outcomes_witness:
  "spec_processDownloadChunk demoConsts 5000000000 demoDl (demoWorker ''h1'') demoChunk
     = (True, demoRegistered) \<and>
   spec_processDownloadChunk demoConsts 5000000000 demoDl (demoWorker ''h2'') demoRegistered
     = (False, demoRegistered\<lparr>workersStandby := [demoWorker ''h2'']\<rparr>) \<and>
   spec_processDownloadChunk demoConsts 5000000000 demoDl (demoWorker ''h3'') demoRegistered
     = (False, demoRegistered\<lparr>workersRemaining := 1\<rparr>)"
proof -
  have i: "pi_index (pieceDataOf (demoWorker h) demoChunk) < length (completedPieces demoChunk)"
    "pi_index (pieceDataOf (demoWorker h) demoChunk) < length (pieceUsage demoChunk)"
    "pi_index (pieceDataOf (demoWorker h) demoRegistered) < length (completedPieces demoRegistered)"
    "pi_index (pieceDataOf (demoWorker h) demoRegistered) < length (pieceUsage demoRegistered)"
    for h
    by (simp_all add: pieceDataOf_def demoChunk_def demoRegistered_def demoWorker_def)
  show ?thesis
    using ownedProcessDownloadChunk_outcomes[where w = "demoWorker ''h1''" and udc = demoChunk
            and k = demoConsts and now = 5000000000 and d = demoDl]
          ownedProcessDownloadChunk_outcomes[where w = "demoWorker ''h2''" and udc = demoRegistered
            and k = demoConsts and now = 5000000000 and d = demoDl]
          ownedProcessDownloadChunk_outcomes[where w = "demoWorker ''h3''" and udc = demoRegistered
            and k = demoConsts and now = 5000000000 and d = demoDl]
    by (simp add: i demo_register demo_standby demo_drop)
qed

lemma process_keeps:
  assumes "ownedProcessDownloadChunk k now d w udc = Inr (ret, udc')"
  shows "piecesCompleted udc' = piecesCompleted udc \<and>
         recoveriesLaunched udc' = recoveriesLaunched udc \<and>
         erasureCode udc' = erasureCode udc"
  using assms
  by (auto simp: ownedProcessDownloadChunk_def managedRemoveWorker_def Let_def
           split: if_splits)

lemma fail_keeps:
  assumes "failPiece transferred w (udc, d) = Inr (udc', d')"
  shows "piecesCompleted udc' = piecesCompleted udc \<and>
         recoveriesLaunched udc' = recoveriesLaunched udc \<and>
         erasureCode udc' = erasureCode udc"
  using assms
  by (auto simp: failPiece_def managedUnregisterWorker_def managedRemoveWorker_def Let_def
           split: if_splits sum.splits)

lemma complete_effect:
  assumes "completePiece tgAdd piece w (udc, d) = Inr (udc', d')"
  shows "piecesCompleted udc' = piecesCompleted udc + 1 \<and>
         piecesRegistered udc' = piecesRegistered udc - 1 \<and>
         workersRemaining udc' = workersRemaining udc - 1 \<and>
         completedPieces udc' ! pi_index (pieceDataOf w udc) \<and>
         erasureCode udc' = erasureCode udc \<and>
         recoveriesLaunched udc' =
           recoveriesLaunched udc +
           (if piecesCompleted udc + 1 = MinPieces (erasureCode udc) \<and> tgAdd then 1 else 0)"
  using assms
  by (auto simp: completePiece_def markPieceCompleted_def managedRemoveWorker_def Let_def
           split: if_splits prod.splits)

lemma launched_at_most_once:
  "reachable k mayRefuse s \<Longrightarrow>
     recoveriesLaunched (chunk s) \<le> 1 \<and>
     (recoveriesLaunched (chunk s) = 1 \<longrightarrow>
        MinPieces (erasureCode (chunk s)) \<le> piecesCompleted (chunk s))"
proof (induction rule: reachable.induct)
  case (start udc d)
  then show ?case by (simp add: freshChunk_def)
next
  case (process s w now ret udc')
  from process_keeps[OF process.hyps(3)] process.IH show ?case by simp
next
  case (complete s w tgAdd piece udc' d')
  from complete_effect[OF complete.hyps(4)] complete.IH show ?case
    by (auto split: if_splits)
next
  case (fail s w transferred udc' d')
  from fail_keeps[OF fail.hyps(3)] fail.IH show ?case by simp
qed

lemma launched_exactly_once:
  "reachable k False s \<Longrightarrow> 0 < MinPieces (erasureCode (chunk s)) \<Longrightarrow>
     recoveriesLaunched (chunk s) =
       (if MinPieces (erasureCode (chunk s)) \<le> piecesCompleted (chunk s) then 1 else 0)"
proof (induction rule: reachable.induct)
  case (start udc d)
  then show ?case by (simp add: freshChunk_def)
next
  case (process s w now ret udc')
  from process_keeps[OF process.hyps(3)] process.IH process.prems show ?case by simp
next
  case (complete s w tgAdd piece udc' d')
  from complete_effect[OF complete.hyps(4)] complete.IH complete.prems complete.hyps(3)
  show ?case by (auto split: if_splits)
next
  case (fail s w transferred udc' d')
  from fail_keeps[OF fail.hyps(3)] fail.IH fail.prems show ?case by simp
qed

text \<open>
  C2 (as amended). In every state a chunk reaches under registering, completing and
  failing workers the recovery thread has been launched at most once, and only when
  \<open>piecesCompleted\<close> has reached \<open>K\<close>. A completing worker always marks its piece
  completed and decrements \<open>piecesRegistered\<close>; it launches the recovery exactly when
  its piece is the one that makes \<open>piecesCompleted\<close> equal to \<open>K\<close> and the thread group
  admits the thread. So when the thread group never refuses (the renter is not shutting
  down) and \<open>K\<close> is positive, the recovery has been launched exactly once in every state
  with \<open>piecesCompleted \<ge> K\<close> and not at all before.
\<close>

theorem recovery_launched_once:
  "(reachable k mayRefuse s \<longrightarrow>
      recoveriesLaunched (chunk s) \<le> 1 \<and>
      (recoveriesLaunched (chunk s) = 1 \<longrightarrow>
         MinPieces (erasureCode (chunk s)) \<le> piecesCompleted (chunk s))) \<and>
   (reachable k False s \<and> 0 < MinPieces (erasureCode (chunk s)) \<longrightarrow>
      recoveriesLaunched (chunk s) =
        (if MinPieces (erasureCode (chunk s)) \<le> piecesCompleted (chunk s) then 1 else 0)) \<and>
   (completePiece tgAdd piece w (udc, d) = Inr (udc', d') \<longrightarrow>
      piecesCompleted udc' = piecesCompleted udc + 1 \<and>
      piecesRegistered udc' = piecesRegistered udc - 1 \<and>
      completedPieces udc' ! pi_index (pieceDataOf w udc) \<and>
      recoveriesLaunched udc' =
        recoveriesLaunched udc +
        (if piecesCompleted udc + 1 = MinPieces (erasureCode udc) \<and> tgAdd then 1 else 0))"
  using launched_at_most_once[of k mayRefuse s] launched_exactly_once[of k s]
        complete_effect[of tgAdd piece w udc d udc' d']
  by blast

lemma demo_complete:
  "completePiece tgAdd [7] (demoWorker ''h1'') (demoRegistered, demoDl) =
     Inr (demoRegistered
            \<lparr>completedPieces := [True, False], physicalChunkData := [[7], []],
               piecesCompleted := 1, piecesRegistered := 0, workersRemaining := 1,
               recoveriesLaunched := (if tgAdd then 1 else 0)\<rparr>,
          demoDl\<lparr>atomicDataReceived := 100, atomicTotalDataTransferred := 100\<rparr>)"
  by (simp add: completePiece_def markPieceCompleted_def managedRemoveWorker_def
        pieceDataOf_def demoRegistered_def demoChunk_def demoWorker_def demoDl_def
        newDownload_def u64_add_def u64_sub_def u64_mul_def u64_of_int_def Let_def)

lemma demoAfter_chunk:
  "chunk (demoAfter tgAdd) =
     demoRegistered
       \<lparr>completedPieces := [True, False], physicalChunkData := [[7], []],
          piecesCompleted := 1, piecesRegistered := 0, workersRemaining := 1,
          recoveriesLaunched := (if tgAdd then 1 else 0)\<rparr>"
  by (simp add: demoAfter_def demo_complete)

lemma demoAfter_counts:
  "MinPieces (erasureCode (chunk (demoAfter tgAdd))) = 1"
  "piecesCompleted (chunk (demoAfter tgAdd)) = 1"
  "recoveriesLaunched (chunk (demoAfter tgAdd)) = (if tgAdd then 1 else 0)"
  by (simp_all add: demoAfter_chunk demoRegistered_def demoChunk_def)

lemma demo_reachable: "reachable demoConsts (\<not> tgAdd) (demoAfter tgAdd)"
proof -
  have r0: "reachable demoConsts (\<not> tgAdd) demoStart"
    unfolding demoStart_def by (rule reachable.start) (simp add: freshChunk_def demoChunk_def)
  have "staticHostPubKey (demoWorker ''h1'') \<notin> registered demoStart"
    by (simp add: demoStart_def)
  moreover have "ownedProcessDownloadChunk demoConsts 5000000000 (dl demoStart)
        (demoWorker ''h1'') (chunk demoStart) = Inr (True, demoRegistered)"
    using demo_register by (simp add: demoStart_def)
  ultimately have r1: "reachable demoConsts (\<not> tgAdd)
      (demoStart\<lparr>chunk := demoRegistered,
                 registered := (if True then insert (staticHostPubKey (demoWorker ''h1''))
                                               (registered demoStart)
                                else registered demoStart)\<rparr>)"
    using r0 by (rule reachable.process[rotated])
  let ?s1 = "demoStart\<lparr>chunk := demoRegistered,
                 registered := (if True then insert (staticHostPubKey (demoWorker ''h1''))
                                               (registered demoStart)
                                else registered demoStart)\<rparr>"
  obtain u d where c: "completePiece tgAdd [7] (demoWorker ''h1'') (demoRegistered, demoDl) = Inr (u, d)"
    using demo_complete by blast
  have in1: "staticHostPubKey (demoWorker ''h1'') \<in> registered ?s1"
    by (simp add: demoWorker_def)
  have c1: "completePiece tgAdd [7] (demoWorker ''h1'') (chunk ?s1, dl ?s1) = Inr (u, d)"
    using c by (simp add: demoStart_def)
  have "reachable demoConsts (\<not> tgAdd)
      (?s1\<lparr>chunk := u, dl := d,
            registered := registered ?s1 - {staticHostPubKey (demoWorker ''h1'')}\<rparr>)"
    using r1 in1 _ c1 by (rule reachable.complete) simp
  moreover have "?s1\<lparr>chunk := u, dl := d,
            registered := registered ?s1 - {staticHostPubKey (demoWorker ''h1'')}\<rparr>
          = demoAfter tgAdd"
    by (simp add: demoAfter_def c demoStart_def)
  ultimately show ?thesis by simp
qed

lemma demo_managedDownload:
  "worker_managedDownload demoConsts 5000000000 tgAdd (Fetched [7]) (demoWorker ''h1'')
     (demoChunk, demoDl) =
   completePiece tgAdd [7] (demoWorker ''h1'') (demoRegistered, demoDl)"
  by (simp add: worker_managedDownload_def demo_register)

theorem recovery_launched_once_witness:
  "reachable demoConsts False (demoAfter True) \<and>
   0 < MinPieces (erasureCode (chunk (demoAfter True))) \<and>
   piecesCompleted (chunk (demoAfter True)) = 1 \<and>
   recoveriesLaunched (chunk (demoAfter True)) = 1 \<and>
   completePiece True [7] (demoWorker ''h1'') (demoRegistered, demoDl) =
     Inr (chunk (demoAfter True), dl (demoAfter True)) \<and>
   piecesRegistered (chunk (demoAfter True)) = piecesRegistered demoRegistered - 1"
proof -
  have r: "reachable demoConsts False (demoAfter True)" using demo_reachable[of True] by simp
  have c: "completePiece True [7] (demoWorker ''h1'') (demoRegistered, demoDl) =
             Inr (chunk (demoAfter True), dl (demoAfter True))"
    by (simp add: demoAfter_def demo_complete)
  show ?thesis
    using recovery_launched_once[of demoConsts False "demoAfter True" True "[7]"
            "demoWorker ''h1''" demoRegistered demoDl "chunk (demoAfter True)"
            "dl (demoAfter True)"] r c
    by (simp add: demoAfter_counts(1,2))
qed

theorem recovery_refused_counterexample:
  "reachable demoConsts True (demoAfter False) \<and>
   MinPieces (erasureCode (chunk (demoAfter False))) = 1 \<and>
   piecesCompleted (chunk (demoAfter False)) = 1 \<and>
   recoveriesLaunched (chunk (demoAfter False)) = 0"
  using demo_reachable[of False] by (simp add: demoAfter_counts)

section \<open>Properties of building upload chunks\<close>

lemma incomplete_missing:
  "c \<in> set (fst (incomplete cs)) \<Longrightarrow>
     c \<in> set cs \<and> uuc_piecesCompleted c < uuc_piecesNeeded c"
  by (induction cs) (auto split: prod.splits if_splits)

text \<open>
  The third loop counts a piece when it sets its entry of \<open>pieceUsage\<close>, so the distance
  between \<open>piecesCompleted\<close> and the number of entries set stays what it was; it never
  clears an entry, and it takes out of \<open>unusedHosts\<close> only hosts of the piece set at hand.
\<close>

lemma count_update:
  "p < length xs \<Longrightarrow> \<not> xs ! p \<Longrightarrow>
     length (filter (\<lambda>b. b) (xs[p := True])) = Suc (length (filter (\<lambda>b. b) xs))"
proof (induction xs arbitrary: p)
  case Nil
  then show ?case by simp
next
  case (Cons x xs)
  then show ?case by (cases p) auto
qed

lemma usePiece_frame:
  assumes "usePiece env pks p c h = Inr c'"
  shows "uuc_index c' = uuc_index c"
    and "uuc_piecesNeeded c' = uuc_piecesNeeded c"
    and "length (uuc_pieceUsage c') = length (uuc_pieceUsage c)"
    and "uuc_pieceUsage c ! p' \<Longrightarrow> uuc_pieceUsage c' ! p'"
    and "uuc_piecesCompleted c' - int (length (filter (\<lambda>b. b) (uuc_pieceUsage c')))
           = uuc_piecesCompleted c - int (length (filter (\<lambda>b. b) (uuc_pieceUsage c)))"
    and "h \<in> pks \<Longrightarrow> uuc_unusedHosts c - {h} \<subseteq> uuc_unusedHosts c'"
  using assms
  by (auto simp: usePiece_def Let_def nth_list_update count_update
           split: if_splits option.splits)

lemma usePiece_claims:
  assumes "usePiece env pks p c h = Inr c'" "h \<in> pks" "goodHost env hosts h"
    and "h \<in> uuc_unusedHosts c"
  shows "uuc_pieceUsage c' ! p"
  using assms
  by (auto simp: usePiece_def Let_def goodHost_def split: if_splits option.splits)

lemma usePieceSet_frame:
  assumes "usePieceSet env pks p c pieceSet = Inr c'"
  shows "uuc_index c' = uuc_index c \<and>
         uuc_piecesNeeded c' = uuc_piecesNeeded c \<and>
         length (uuc_pieceUsage c') = length (uuc_pieceUsage c) \<and>
         (uuc_pieceUsage c ! p' \<longrightarrow> uuc_pieceUsage c' ! p') \<and>
         uuc_piecesCompleted c' - int (length (filter (\<lambda>b. b) (uuc_pieceUsage c')))
           = uuc_piecesCompleted c - int (length (filter (\<lambda>b. b) (uuc_pieceUsage c)))"
  using assms
proof (induction pieceSet arbitrary: c)
  case Nil
  then show ?case by simp
next
  case (Cons h rest)
  from Cons.prems(1) obtain c1 where
    1: "usePiece env pks p c h = Inr c1" and 2: "usePieceSet env pks p c1 rest = Inr c'"
    by (auto split: sum.splits)
  note f = usePiece_frame[OF 1]
  note i = Cons.IH[OF 2]
  show ?case using f(1,2,3,5) f(4)[of p'] i by simp
qed

lemma usePieceSet_hosts:
  assumes "usePieceSet env pks p c pieceSet = Inr c'" "set pieceSet \<subseteq> pks"
  shows "uuc_unusedHosts c - set pieceSet \<subseteq> uuc_unusedHosts c'"
  using assms
proof (induction pieceSet arbitrary: c)
  case Nil
  then show ?case by simp
next
  case (Cons h rest)
  from Cons.prems(1) obtain c1 where
    1: "usePiece env pks p c h = Inr c1" and 2: "usePieceSet env pks p c1 rest = Inr c'"
    by (auto split: sum.splits)
  have h: "h \<in> pks" and rest: "set rest \<subseteq> pks" using Cons.prems(2) by simp_all
  have "uuc_unusedHosts c - set (h # rest) \<subseteq> uuc_unusedHosts c1 - set rest"
    using usePiece_frame(6)[OF 1 h] by auto
  then show ?case using Cons.IH[OF 2 rest] by blast
qed

lemma usePieceSet_claims:
  assumes "usePieceSet env pks p c pieceSet = Inr c'" "set pieceSet \<subseteq> pks"
    and "uuc_pieceUsage c ! p \<or>
         (\<exists>h \<in> set pieceSet. goodHost env hosts h \<and> h \<in> uuc_unusedHosts c)"
  shows "uuc_pieceUsage c' ! p"
  using assms
proof (induction pieceSet arbitrary: c)
  case Nil
  then show ?case by simp
next
  case (Cons h rest)
  from Cons.prems(1) obtain c1 where
    1: "usePiece env pks p c h = Inr c1" and 2: "usePieceSet env pks p c1 rest = Inr c'"
    by (auto split: sum.splits)
  have h: "h \<in> pks" and rest: "set rest \<subseteq> pks" using Cons.prems(2) by simp_all
  note f = usePiece_frame[OF 1]
  have "uuc_pieceUsage c1 ! p \<or>
        (\<exists>g \<in> set rest. goodHost env hosts g \<and> g \<in> uuc_unusedHosts c1)"
  proof (cases "uuc_pieceUsage c ! p")
    case True
    then show ?thesis using f(4) by simp
  next
    case False
    then obtain g where g: "g \<in> set (h # rest)" "goodHost env hosts g" "g \<in> uuc_unusedHosts c"
      using Cons.prems(3) by blast
    show ?thesis
    proof (cases "g = h")
      case True
      then show ?thesis using usePiece_claims[OF 1 h] g by simp
    next
      case False
      then have "g \<in> set rest" "g \<in> uuc_unusedHosts c1" using g f(6)[OF h] by auto
      then show ?thesis using g(2) by blast
    qed
  qed
  from Cons.IH[OF 2 rest this] show ?case .
qed

lemma usePieces_frame:
  assumes "usePieces env pks c ps = Inr c'"
  shows "uuc_index c' = uuc_index c \<and>
         uuc_piecesNeeded c' = uuc_piecesNeeded c \<and>
         length (uuc_pieceUsage c') = length (uuc_pieceUsage c) \<and>
         (uuc_pieceUsage c ! p' \<longrightarrow> uuc_pieceUsage c' ! p') \<and>
         uuc_piecesCompleted c' - int (length (filter (\<lambda>b. b) (uuc_pieceUsage c')))
           = uuc_piecesCompleted c - int (length (filter (\<lambda>b. b) (uuc_pieceUsage c)))"
  using assms
proof (induction ps arbitrary: c)
  case Nil
  then show ?case by simp
next
  case (Cons x rest)
  obtain p pieceSet where x: "x = (p, pieceSet)" by (cases x)
  from Cons.prems(1) obtain c1 where
    1: "usePieceSet env pks p c pieceSet = Inr c1" and 2: "usePieces env pks c1 rest = Inr c'"
    by (auto simp: x split: sum.splits)
  from usePieceSet_frame[OF 1, of p'] Cons.IH[OF 2] show ?case by simp
qed

lemma usePieces_claims:
  assumes "usePieces env pks c ps = Inr c'" "\<forall>x \<in> set ps. set (snd x) \<subseteq> pks"
    and "\<forall>x \<in> set ps. \<exists>h \<in> set (snd x). goodHost env hosts h \<and> h \<in> uuc_unusedHosts c"
    and "sorted_wrt (\<lambda>a b. set (snd a) \<inter> set (snd b) = {}) ps"
  shows "\<forall>x \<in> set ps. uuc_pieceUsage c' ! fst x"
  using assms
proof (induction ps arbitrary: c)
  case Nil
  then show ?case by simp
next
  case (Cons x rest)
  obtain p pieceSet where x: "x = (p, pieceSet)" by (cases x)
  from Cons.prems(1) obtain c1 where
    1: "usePieceSet env pks p c pieceSet = Inr c1" and 2: "usePieces env pks c1 rest = Inr c'"
    by (auto simp: x split: sum.splits)
  have s: "set pieceSet \<subseteq> pks" and r: "\<forall>x \<in> set rest. set (snd x) \<subseteq> pks"
    using Cons.prems(2) by (simp_all add: x)
  have apart: "\<forall>y \<in> set rest. set pieceSet \<inter> set (snd y) = {}"
    and sorted: "sorted_wrt (\<lambda>a b. set (snd a) \<inter> set (snd b) = {}) rest"
    using Cons.prems(4) by (simp_all add: x)
  note f = usePieceSet_hosts[OF 1 s]
  have here: "uuc_pieceUsage c1 ! p"
    using usePieceSet_claims[OF 1 s, of hosts] Cons.prems(3) by (simp add: x)
  have later: "\<forall>y \<in> set rest. \<exists>h \<in> set (snd y). goodHost env hosts h \<and> h \<in> uuc_unusedHosts c1"
  proof
    fix y assume y: "y \<in> set rest"
    then obtain h where h: "h \<in> set (snd y)" "goodHost env hosts h" "h \<in> uuc_unusedHosts c"
      using Cons.prems(3) by auto
    have "h \<notin> set pieceSet" using apart y h(1) by auto
    then have "h \<in> uuc_unusedHosts c1" using h(3) f by auto
    then show "\<exists>h \<in> set (snd y). goodHost env hosts h \<and> h \<in> uuc_unusedHosts c1"
      using h by blast
  qed
  have "uuc_pieceUsage c' ! p" using usePieces_frame[OF 2, of p] here by simp
  then show ?case using Cons.IH[OF 2 r later sorted] by (simp add: x)
qed

text \<open>A new chunk whose piece sets all hold a good host of their own ends with every piece counted.\<close>

lemma stored_chunk_complete:
  assumes run: "usePieces env (set (fe_HostPublicKeys e)) c0 (zip [0 ..< length pieces] pieces) = Inr c'"
    and fresh: "uuc_piecesCompleted c0 = 0" "uuc_pieceUsage c0 = replicate (length pieces) False"
      "uuc_unusedHosts c0 = hosts"
    and listed: "\<forall>pieceSet \<in> set pieces. set pieceSet \<subseteq> set (fe_HostPublicKeys e)"
    and good: "\<forall>p < length pieces. \<exists>h \<in> set (pieces ! p). goodHost env hosts h"
    and apart: "\<forall>p < length pieces. \<forall>p' < length pieces.
                  p \<noteq> p' \<longrightarrow> set (pieces ! p) \<inter> set (pieces ! p') = {}"
  shows "uuc_piecesCompleted c' = int (length pieces)"
proof -
  let ?ps = "zip [0 ..< length pieces] pieces"
  have l: "\<forall>x \<in> set ?ps. set (snd x) \<subseteq> set (fe_HostPublicKeys e)"
  proof
    fix x assume "x \<in> set ?ps"
    then have "snd x \<in> set pieces" by (metis set_zip_rightD surjective_pairing)
    then show "set (snd x) \<subseteq> set (fe_HostPublicKeys e)" using listed by blast
  qed
  have g: "\<forall>x \<in> set ?ps. \<exists>h \<in> set (snd x). goodHost env hosts h \<and> h \<in> uuc_unusedHosts c0"
    using good fresh(3) by (auto simp: set_zip goodHost_def)
  have a: "sorted_wrt (\<lambda>a b. set (snd a) \<inter> set (snd b) = {}) ?ps"
    using apart by (auto simp: sorted_wrt_iff_nth_less)
  from usePieces_claims[OF run l g a]
  have set_all: "\<forall>p < length pieces. uuc_pieceUsage c' ! p" by (auto simp: set_zip)
  note f = usePieces_frame[OF run, of 0]
  have len: "length (uuc_pieceUsage c') = length pieces" using f fresh(2) by simp
  have "\<forall>b \<in> set (uuc_pieceUsage c'). b" using set_all len by (auto simp: in_set_conv_nth)
  then have "filter (\<lambda>b. b) (uuc_pieceUsage c') = uuc_pieceUsage c'" by (intro filter_True) simp
  then have "length (filter (\<lambda>b. b) (uuc_pieceUsage c')) = length pieces" using len by simp
  moreover have "filter (\<lambda>b. b) (uuc_pieceUsage c0) = []" by (simp add: fresh(2))
  ultimately show ?thesis using f fresh(1) by simp
qed

text \<open>Where the chunks that reach the last loop come from.\<close>

lemma assembleChunks_fresh:
  "assembleChunks env hosts entrys l = Inr (cs, evs) \<Longrightarrow>
     length cs = length l \<and>
     (\<forall>k < length l. \<exists>s. cs ! k = newUnfinishedChunk hosts (fst (l ! k)) (entrys ! fst (l ! k)) (snd (l ! k)) s \<and>
        0 \<le> NumPieces (fe_ErasureCode (entrys ! fst (l ! k))))"
proof (induction l arbitrary: cs evs)
  case Nil
  then show ?case by simp
next
  case (Cons x rest)
  obtain i idx where x: "x = (i, idx)" by (cases x)
  from Cons.prems obtain s cs' evs' where
    r: "assembleChunks env hosts entrys rest = Inr (cs', evs')"
    and cs: "cs = newUnfinishedChunk hosts i (entrys ! i) idx s # cs'"
    and n: "0 \<le> NumPieces (fe_ErasureCode (entrys ! i))"
    by (auto simp: x split: if_splits sum.splits prod.splits)
  from Cons.IH[OF r] have ih: "length cs' = length rest"
    "\<forall>k < length rest. \<exists>s. cs' ! k = newUnfinishedChunk hosts (fst (rest ! k))
        (entrys ! fst (rest ! k)) (snd (rest ! k)) s \<and>
        0 \<le> NumPieces (fe_ErasureCode (entrys ! fst (rest ! k)))"
    by simp_all
  show ?case
  proof (intro conjI allI impI)
    show "length cs = length (x # rest)" using ih(1) cs by simp
  next
    fix k assume k: "k < length (x # rest)"
    show "\<exists>s. cs ! k = newUnfinishedChunk hosts (fst ((x # rest) ! k))
            (entrys ! fst ((x # rest) ! k)) (snd ((x # rest) ! k)) s \<and>
          0 \<le> NumPieces (fe_ErasureCode (entrys ! fst ((x # rest) ! k)))"
    proof (cases k)
      case 0
      then show ?thesis using cs n x by auto
    next
      case (Suc k')
      then show ?thesis using ih(2) k cs by simp
    qed
  qed
qed

lemma markUsedHosts_origin:
  "markUsedHosts env pks e0 l = Inr (Some marked) \<Longrightarrow> c \<in> set marked \<Longrightarrow>
     \<exists>idx c0 pieces. (idx, c0) \<in> set l \<and> entryPieces e0 idx = Some pieces \<and>
        usePieces env pks c0 (zip [0 ..< length pieces] pieces) = Inr c"
proof (induction l arbitrary: marked)
  case Nil
  then show ?case by simp
next
  case (Cons x rest)
  obtain idx c0 where x: "x = (idx, c0)" by (cases x)
  from Cons.prems(1) obtain pieces c1 cs where
    p: "entryPieces e0 idx = Some pieces"
    and u: "usePieces env pks c0 (zip [0 ..< length pieces] pieces) = Inr c1"
    and r: "markUsedHosts env pks e0 rest = Inr (Some cs)"
    and m: "marked = c1 # cs"
    by (auto simp: x split: option.splits sum.splits)
  show ?case
  proof (cases "c = c1")
    case True
    then show ?thesis using p u x by auto
  next
    case False
    then have "c \<in> set cs" using Cons.prems(2) m by simp
    from Cons.IH[OF r this] show ?thesis by auto
  qed
qed

text \<open>
  C7. Called on the entries of a file whose \<open>MinPieces\<close> exceeds the number of workers
  in the pool, \<open>buildUnfinishedChunks\<close> calls \<open>MarkAllChunksAsStuck\<close> on the file, logs
  a warning when the call fails, closes every entry and returns no chunk; when the call
  succeeds every chunk of the file is stuck afterwards. Whatever the function returns,
  every returned chunk has \<open>piecesCompleted < piecesNeeded\<close>, and it is not a chunk that
  the file has stored on good hosts: a chunk whose \<open>piecesNeeded\<close> piece sets each hold a
  good host, no host holding two pieces of it, is not returned.
\<close>

theorem buildUnfinishedChunks_contract:
  "(entrys \<noteq> [] \<and> workerPoolLen env < MinPieces (fe_ErasureCode (hd entrys)) \<longrightarrow>
      buildUnfinishedChunks env entrys hosts target =
        Inr ([], EvMarkAllChunksAsStuck 0 #
                 (if storeWritable env then [] else [EvWarnMarkStuck]) @
                 map EvClose [0 ..< length entrys],
             MarkAllChunksAsStuck (storeWritable env) (hd entrys)) \<and>
      (storeWritable env \<longrightarrow>
         (\<exists>file. MarkAllChunksAsStuck (storeWritable env) (hd entrys) = Some file \<and>
            length (fe_stuck file) = length (fe_stuck (hd entrys)) \<and>
            (\<forall>i < length (fe_stuck file). StuckChunkByIndex file i = Inr True)))) \<and>
   (buildUnfinishedChunks env entrys hosts target = Inr (chunks, evs, marked) \<longrightarrow>
      (\<forall>c \<in> set chunks.
         uuc_piecesCompleted c < uuc_piecesNeeded c \<and>
         \<not> storedOnGoodHosts env hosts (hd entrys) (uuc_index c) (uuc_piecesNeeded c)))"
proof -
  have a: "buildUnfinishedChunks env entrys hosts target =
        Inr ([], EvMarkAllChunksAsStuck 0 #
                 (if storeWritable env then [] else [EvWarnMarkStuck]) @
                 map EvClose [0 ..< length entrys],
             MarkAllChunksAsStuck (storeWritable env) (hd entrys))"
    if "entrys \<noteq> []" "workerPoolLen env < MinPieces (fe_ErasureCode (hd entrys))"
    using that by (simp add: buildUnfinishedChunks_def hd_conv_nth MarkAllChunksAsStuck_def)
  have a': "\<exists>file. MarkAllChunksAsStuck (storeWritable env) (hd entrys) = Some file \<and>
            length (fe_stuck file) = length (fe_stuck (hd entrys)) \<and>
            (\<forall>i < length (fe_stuck file). StuckChunkByIndex file i = Inr True)"
    if "storeWritable env"
    using that by (simp add: MarkAllChunksAsStuck_def StuckChunkByIndex_def)
  have b: "uuc_piecesCompleted c < uuc_piecesNeeded c \<and>
           \<not> storedOnGoodHosts env hosts (hd entrys) (uuc_index c) (uuc_piecesNeeded c)"
    if r: "buildUnfinishedChunks env entrys hosts target = Inr (chunks, evs, marked)"
      and c: "c \<in> set chunks" for c
  proof -
    from r c obtain chunkIndexes evs1 cs evs2 ms where
      ne: "entrys \<noteq> []"
      and ac: "assembleChunks env hosts entrys (zip [0 ..< length chunkIndexes] chunkIndexes)
                 = Inr (cs, evs2)"
      and mu: "markUsedHosts env (set (fe_HostPublicKeys (entrys ! 0))) (entrys ! 0)
                 (zip chunkIndexes cs) = Inr (Some ms)"
      and ch: "chunks = fst (incomplete ms)"
      by (auto simp: buildUnfinishedChunks_def
               split: if_splits sum.splits prod.splits option.splits)
    have e0: "entrys ! 0 = hd entrys" using ne by (simp add: hd_conv_nth)
    from incomplete_missing[of c ms] c ch
    have cm: "c \<in> set ms" and lt: "uuc_piecesCompleted c < uuc_piecesNeeded c" by simp_all
    from markUsedHosts_origin[OF mu cm] obtain idx c0 pieces where
      o: "(idx, c0) \<in> set (zip chunkIndexes cs)"
      and ep: "entryPieces (hd entrys) idx = Some pieces"
      and up: "usePieces env (set (fe_HostPublicKeys (hd entrys))) c0
                 (zip [0 ..< length pieces] pieces) = Inr c"
      unfolding e0 by blast
    from o obtain k where k: "k < length chunkIndexes" "k < length cs"
      "idx = chunkIndexes ! k" "c0 = cs ! k"
      by (auto simp: set_zip)
    from assembleChunks_fresh[OF ac] k obtain s where
      c0: "c0 = newUnfinishedChunk hosts k (entrys ! k) idx s"
      and n: "0 \<le> NumPieces (fe_ErasureCode (entrys ! k))"
      by auto
    have c0f: "uuc_index c0 = idx" "uuc_piecesCompleted c0 = 0" "uuc_unusedHosts c0 = hosts"
      "uuc_piecesNeeded c0 = NumPieces (fe_ErasureCode (entrys ! k))"
      "uuc_pieceUsage c0 = replicate (nat (NumPieces (fe_ErasureCode (entrys ! k)))) False"
      by (simp_all add: c0 newUnfinishedChunk_def Let_def)
    have "\<not> storedOnGoodHosts env hosts (hd entrys) (uuc_index c) (uuc_piecesNeeded c)"
    proof
      assume st: "storedOnGoodHosts env hosts (hd entrys) (uuc_index c) (uuc_piecesNeeded c)"
      note f = usePieces_frame[OF up, of 0]
      have same: "uuc_index c = idx"
        "uuc_piecesNeeded c = NumPieces (fe_ErasureCode (entrys ! k))"
        using f c0f by simp_all
      from st have len: "int (length pieces) = NumPieces (fe_ErasureCode (entrys ! k))"
        and listed: "\<forall>pieceSet \<in> set pieces. set pieceSet \<subseteq> set (fe_HostPublicKeys (hd entrys))"
        and good: "\<forall>p < length pieces. \<exists>h \<in> set (pieces ! p). goodHost env hosts h"
        and apart: "\<forall>p < length pieces. \<forall>p' < length pieces.
                      p \<noteq> p' \<longrightarrow> set (pieces ! p) \<inter> set (pieces ! p') = {}"
        unfolding storedOnGoodHosts_def same ep option.case by blast+
      have "nat (NumPieces (fe_ErasureCode (entrys ! k))) = length pieces"
        using len by simp
      then have usage: "uuc_pieceUsage c0 = replicate (length pieces) False"
        using c0f(5) by simp
      from stored_chunk_complete[OF up c0f(2) usage c0f(3) listed good apart]
      have "uuc_piecesCompleted c = uuc_piecesNeeded c" using len same(2) by simp
      then show False using lt by simp
    qed
    then show ?thesis using lt by simp
  qed
  show ?thesis using a a' b by blast
qed

lemmas build_eval =
  buildUnfinishedChunks_def poolOf_def partlyUploaded_def StuckChunkByIndex_def
  MarkAllChunksAsStuck_def entryPieces_def usePiece_def newUnfinishedChunk_def Let_def
  insert_Diff_if numeral_2_eq_2

lemma partlyUploaded_built:
  "buildUnfinishedChunks (poolOf 1 True) [partlyUploaded, partlyUploaded] {''h1'', ''h2''}
       targetUnstuckChunks =
     Inr ([(newUnfinishedChunk {''h1'', ''h2''} 0 partlyUploaded 0 False)
             \<lparr>uuc_pieceUsage := [True, False], uuc_piecesCompleted := 1,
                uuc_unusedHosts := {''h2''}\<rparr>], [EvClose 1], None)"
  by (simp add: build_eval)

lemma partlyUploaded_stored:
  "\<not> storedOnGoodHosts (poolOf 1 True) {''h1'', ''h2''} partlyUploaded 0 2"
  "storedOnGoodHosts (poolOf 1 True) {''h1'', ''h2''} partlyUploaded 1 2"
  by (auto simp: storedOnGoodHosts_def goodHost_def entryPieces_def partlyUploaded_def
        poolOf_def less_Suc_eq numeral_2_eq_2)

theorem buildUnfinishedChunks_contract_witness:
  "buildUnfinishedChunks (poolOf 0 True) [partlyUploaded, partlyUploaded] {''h1'', ''h2''}
       targetUnstuckChunks =
     Inr ([], [EvMarkAllChunksAsStuck 0, EvClose 0, EvClose 1],
          Some (partlyUploaded\<lparr>fe_stuck := [True, True]\<rparr>)) \<and>
   StuckChunkByIndex (partlyUploaded\<lparr>fe_stuck := [True, True]\<rparr>) 0 = Inr True \<and>
   StuckChunkByIndex (partlyUploaded\<lparr>fe_stuck := [True, True]\<rparr>) 1 = Inr True \<and>
   buildUnfinishedChunks (poolOf 0 False) [partlyUploaded, partlyUploaded] {''h1'', ''h2''}
       targetUnstuckChunks =
     Inr ([], [EvMarkAllChunksAsStuck 0, EvWarnMarkStuck, EvClose 0, EvClose 1], None) \<and>
   buildUnfinishedChunks (poolOf 1 True) [partlyUploaded, partlyUploaded] {''h1'', ''h2''}
       targetUnstuckChunks =
     Inr ([(newUnfinishedChunk {''h1'', ''h2''} 0 partlyUploaded 0 False)
             \<lparr>uuc_pieceUsage := [True, False], uuc_piecesCompleted := 1,
                uuc_unusedHosts := {''h2''}\<rparr>], [EvClose 1], None) \<and>
   uuc_piecesCompleted
     ((newUnfinishedChunk {''h1'', ''h2''} 0 partlyUploaded 0 False)
        \<lparr>uuc_pieceUsage := [True, False], uuc_piecesCompleted := 1,
           uuc_unusedHosts := {''h2''}\<rparr>)
   < uuc_piecesNeeded
     ((newUnfinishedChunk {''h1'', ''h2''} 0 partlyUploaded 0 False)
        \<lparr>uuc_pieceUsage := [True, False], uuc_piecesCompleted := 1,
           uuc_unusedHosts := {''h2''}\<rparr>) \<and>
   \<not> storedOnGoodHosts (poolOf 1 True) {''h1'', ''h2''} partlyUploaded 0 2 \<and>
   storedOnGoodHosts (poolOf 1 True) {''h1'', ''h2''} partlyUploaded 1 2"
proof -
  let ?entrys = "[partlyUploaded, partlyUploaded]"
  let ?c = "(newUnfinishedChunk {''h1'', ''h2''} 0 partlyUploaded 0 False)
             \<lparr>uuc_pieceUsage := [True, False], uuc_piecesCompleted := 1,
                uuc_unusedHosts := {''h2''}\<rparr>"
  have low: "?entrys \<noteq> [] \<and>
             workerPoolLen (poolOf 0 w) < MinPieces (fe_ErasureCode (hd ?entrys))" for w
    by (simp add: poolOf_def partlyUploaded_def)
  have sw: "storeWritable (poolOf 0 True)" "\<not> storeWritable (poolOf 0 False)"
    by (simp_all add: poolOf_def)
  have m: "MarkAllChunksAsStuck True partlyUploaded = Some (partlyUploaded\<lparr>fe_stuck := [True, True]\<rparr>)"
    "MarkAllChunksAsStuck False partlyUploaded = None"
    by (simp_all add: MarkAllChunksAsStuck_def partlyUploaded_def numeral_2_eq_2)
  have s: "StuckChunkByIndex (partlyUploaded\<lparr>fe_stuck := [True, True]\<rparr>) 0 = Inr True"
    "StuckChunkByIndex (partlyUploaded\<lparr>fe_stuck := [True, True]\<rparr>) 1 = Inr True"
    by (simp_all add: StuckChunkByIndex_def)
  have c: "uuc_index ?c = 0" "uuc_piecesNeeded ?c = 2"
    by (simp_all add: newUnfinishedChunk_def partlyUploaded_def)
  show ?thesis
    using buildUnfinishedChunks_contract[of ?entrys "poolOf 0 True" "{''h1'', ''h2''}"
            targetUnstuckChunks "[]" "[]" None]
          buildUnfinishedChunks_contract[of ?entrys "poolOf 0 False" "{''h1'', ''h2''}"
            targetUnstuckChunks "[]" "[]" None]
          buildUnfinishedChunks_contract[of ?entrys "poolOf 1 True" "{''h1'', ''h2''}"
            targetUnstuckChunks "[?c]" "[EvClose 1]" None]
          low partlyUploaded_built partlyUploaded_stored(2)
    by (simp add: sw m s c)
qed

text \<open>
  The placement rule matters. A host that holds a piece another host has been counted
  for is taken out of \<open>unusedHosts\<close>, so a second piece on that host is not counted: the
  chunk below has both pieces on good hosts and is returned with one piece completed.
\<close>

lemma doubly_placed_piece_not_counted:
  "buildUnfinishedChunks (poolOf 1 True) [doublyPlaced] {''h1'', ''h2''} targetUnstuckChunks =
     Inr ([(newUnfinishedChunk {''h1'', ''h2''} 0 doublyPlaced 0 False)
             \<lparr>uuc_pieceUsage := [True, False], uuc_piecesCompleted := 1,
                uuc_unusedHosts := {}\<rparr>], [], None)"
  by (simp add: buildUnfinishedChunks_def poolOf_def doublyPlaced_def StuckChunkByIndex_def
        entryPieces_def usePiece_def newUnfinishedChunk_def Let_def insert_Diff_if
        numeral_2_eq_2)

section \<open>Properties of the repair loop\<close>

lemma drain_only_drained:
  "e \<in> set (fst (snd (drainStuck uh))) \<Longrightarrow> iteration e = None"
proof (induction uh arbitrary: e rule: drainStuck.induct)
  case (1 uh)
  show ?case
  proof (cases "0 < managedLen uh")
    case False
    then show ?thesis using "1.prems" by (subst (asm) drainStuck.simps) simp
  next
    case True
    obtain r uh1 where pop: "managedPop uh = (r, uh1)" by force
    show ?thesis
    proof (cases r)
      case None
      then show ?thesis using "1.prems" True pop by (subst (asm) drainStuck.simps) simp
    next
      case (Some c)
      have ih: "e' \<in> set (fst (snd (drainStuck uh1))) \<Longrightarrow> iteration e' = None" for e'
        using "1.IH"[OF True pop[symmetric] Some] .
      from "1.prems" True pop Some have "e = Drained c \<or> e \<in> set (fst (snd (drainStuck uh1)))"
        by (subst (asm) drainStuck.simps) (auto split: prod.splits)
      then show ?thesis using ih by auto
    qed
  qed
qed

lemma loop_step:
  assumes "managedRepairLoop env i n uh = (evs, uh2)" "evs \<noteq> []"
  shows "\<exists>c uh1 tail rest.
      managedPop uh = (Some c, uh1) \<and>
      evs = Popped i c # stampRecentRepair env i c @ tail @ rest \<and>
      (\<forall>e \<in> set tail. blockTail i e) \<and>
      ((\<exists>n' uh3. managedRepairLoop env (Suc i) n' uh1 = (rest, uh3)) \<or>
       (\<forall>e \<in> set rest. iteration e = None))"
proof -
  have running: "\<not> (stopChan env i \<or> rebuildHeapSignal env i)" "Online env i"
    using assms by (subst (asm) managedRepairLoop.simps, auto split: if_splits)+
  obtain r uh1 where pop: "managedPop uh = (r, uh1)" by force
  from assms running pop obtain c where r: "r = Some c"
    by (subst (asm) managedRepairLoop.simps) (cases r, auto)
  consider (stuck) "availableWorkers env i < uuc_minimumPieces c"
    | (drain) "\<not> availableWorkers env i < uuc_minimumPieces c"
        "maxConsecutiveChunkRepairs env \<le> n + 1"
    | (again) "\<not> availableWorkers env i < uuc_minimumPieces c"
        "\<not> maxConsecutiveChunkRepairs env \<le> n + 1"
    by blast
  then show ?thesis
  proof cases
    case stuck
    obtain rest uh3 where rec: "managedRepairLoop env (Suc i) n uh1 = (rest, uh3)" by force
    have "evs = Popped i c # stampRecentRepair env i c @
            [SetStuck i (uuc_fileEntry c) (uuc_index c), BubbleMetadata i (uuc_fileEntry c)] @ rest"
      using assms(1) running pop r stuck rec by (subst (asm) managedRepairLoop.simps) auto
    moreover have "\<forall>e \<in> set [SetStuck i (uuc_fileEntry c) (uuc_index c),
                           BubbleMetadata i (uuc_fileEntry c)]. blockTail i e"
      by (auto simp: blockTail_def)
    ultimately show ?thesis using pop r rec by blast
  next
    case drain
    obtain st rest uh3 where d: "drainStuck uh1 = (st, rest, uh3)" by (cases "drainStuck uh1") auto
    have "evs = Popped i c # stampRecentRepair env i c @ managedPrepareNextChunk env i c @ rest"
      using assms(1) running pop r drain d by (subst (asm) managedRepairLoop.simps) auto
    moreover have "\<forall>e \<in> set rest. iteration e = None"
      using drain_only_drained[of _ uh1] d by simp
    moreover have "\<forall>e \<in> set (managedPrepareNextChunk env i c). blockTail i e"
      by (auto simp: managedPrepareNextChunk_def blockTail_def)
    ultimately show ?thesis using pop r by blast
  next
    case again
    obtain rest uh3 where rec: "managedRepairLoop env (Suc i) (n + 1) uh1 = (rest, uh3)" by force
    have "evs = Popped i c # stampRecentRepair env i c @ managedPrepareNextChunk env i c @ rest"
      using assms(1) running pop r again rec by (subst (asm) managedRepairLoop.simps) auto
    moreover have "\<forall>e \<in> set (managedPrepareNextChunk env i c). blockTail i e"
      by (auto simp: managedPrepareNextChunk_def blockTail_def)
    ultimately show ?thesis using pop r rec by blast
  qed
qed

lemma split_after_block:
  assumes "x \<notin> set ys" "ys @ zs = ps @ x # qs"
  shows "\<exists>ps'. ps = ys @ ps' \<and> zs = ps' @ x # qs"
proof -
  from assms(2) obtain us where
    "(ys = ps @ us \<and> us @ zs = x # qs) \<or> (ys @ us = ps \<and> zs = us @ x # qs)"
    by (auto simp: append_eq_append_conv2)
  then show ?thesis
  proof
    assume a: "ys = ps @ us \<and> us @ zs = x # qs"
    show ?thesis
    proof (cases us)
      case Nil
      then show ?thesis using a by auto
    next
      case (Cons u us')
      then have "x \<in> set ys" using a by auto
      then show ?thesis using assms(1) by simp
    qed
  next
    assume "ys @ us = ps \<and> zs = us @ x # qs"
    then show ?thesis by auto
  qed
qed

lemma loop_iterations:
  "managedRepairLoop env i n uh = (evs, uh2) \<Longrightarrow> e \<in> set evs \<Longrightarrow> iteration e = Some j \<Longrightarrow> i \<le> j"
proof (induction "length (heap uh)" arbitrary: uh i n evs uh2 rule: less_induct)
  case less
  from less.prems(2) have ne: "evs \<noteq> []" by auto
  from loop_step[OF less.prems(1) ne] obtain c uh1 tail rest where
    pop: "managedPop uh = (Some c, uh1)" and
    evs: "evs = Popped i c # stampRecentRepair env i c @ tail @ rest" and
    tail: "\<forall>e \<in> set tail. blockTail i e" and
    rest: "(\<exists>n' uh3. managedRepairLoop env (Suc i) n' uh1 = (rest, uh3)) \<or>
           (\<forall>e \<in> set rest. iteration e = None)"
    by blast
  from less.prems(2) evs consider "e = Popped i c" | "e \<in> set (stampRecentRepair env i c)"
    | "e \<in> set tail" | "e \<in> set rest" by auto
  then show ?case
  proof cases
    case 1
    then show ?thesis using less.prems(3) by simp
  next
    case 2
    then show ?thesis using less.prems(3) by (auto simp: stampRecentRepair_def split: if_splits)
  next
    case 3
    then show ?thesis using tail less.prems(3) by (auto simp: blockTail_def)
  next
    case 4
    from rest show ?thesis
    proof
      assume "\<exists>n' uh3. managedRepairLoop env (Suc i) n' uh1 = (rest, uh3)"
      then obtain n' uh3 where "managedRepairLoop env (Suc i) n' uh1 = (rest, uh3)" by blast
      from less.hyps[OF managedPop_shrinks[OF pop] this 4 less.prems(3)] show ?thesis by simp
    next
      assume "\<forall>e \<in> set rest. iteration e = None"
      then show ?thesis using 4 less.prems(3) by auto
    qed
  qed
qed

text \<open>
  C4 (as amended). For every chunk that \<open>managedRepairLoop\<close> pops as the next chunk to
  repair: when the cached health of its file is below 0.8, the call of
  \<open>UpdateRecentRepairTime\<close> on the file entry is the very next thing the loop does, so
  it comes before memory is requested for the chunk and hence before that memory can be
  released; when the cached health is 0.8 or more, the loop does not call
  \<open>UpdateRecentRepairTime\<close> in that iteration at all. Memory is never requested for a
  chunk before it is popped.
\<close>

theorem repair_time_stamped_below_threshold:
  assumes "managedRepairLoop env i n uh = (evs, uh2)"
    and "evs = pre @ Popped j c # post"
  shows "MemoryRequest j c \<notin> set pre \<and> FetchAndRepairChunk j c \<notin> set pre \<and>
     (CachedHealth env j (uuc_fileEntry c) < 0.8 \<longrightarrow>
        (\<exists>post'. post = UpdateRecentRepairTime j (uuc_fileEntry c) # post')) \<and>
     (\<not> CachedHealth env j (uuc_fileEntry c) < 0.8 \<longrightarrow>
        (\<forall>f. UpdateRecentRepairTime j f \<notin> set evs))"
  using assms
proof (induction "length (heap uh)" arbitrary: uh i n evs uh2 pre rule: less_induct)
  case less
  have ne: "evs \<noteq> []" using less.prems(2) by simp
  from loop_step[OF less.prems(1) ne] obtain c0 uh1 tail rest where
    pop: "managedPop uh = (Some c0, uh1)" and
    evs: "evs = Popped i c0 # stampRecentRepair env i c0 @ tail @ rest" and
    tail: "\<forall>e \<in> set tail. blockTail i e" and
    rest: "(\<exists>n' uh3. managedRepairLoop env (Suc i) n' uh1 = (rest, uh3)) \<or>
           (\<forall>e \<in> set rest. iteration e = None)"
    by blast
  have later: "Suc i \<le> k" if "e \<in> set rest" "iteration e = Some k" for e k
    using rest
  proof
    assume "\<exists>n' uh3. managedRepairLoop env (Suc i) n' uh1 = (rest, uh3)"
    then obtain n' uh3 where "managedRepairLoop env (Suc i) n' uh1 = (rest, uh3)" by blast
    from loop_iterations[OF this that] show ?thesis .
  next
    assume "\<forall>e \<in> set rest. iteration e = None"
    then show ?thesis using that by auto
  qed
  show ?case
  proof (cases pre)
    case Nil
    then have same: "j = i" "c = c0" and post: "post = stampRecentRepair env i c0 @ tail @ rest"
      using less.prems(2) evs by auto
    have "UpdateRecentRepairTime i f \<notin> set evs"
      if "\<not> CachedHealth env i (uuc_fileEntry c0) < 0.8" for f
    proof
      assume "UpdateRecentRepairTime i f \<in> set evs"
      then have "UpdateRecentRepairTime i f \<in> set tail \<or> UpdateRecentRepairTime i f \<in> set rest"
        using evs that by (auto simp: stampRecentRepair_def)
      then show False
      proof
        assume "UpdateRecentRepairTime i f \<in> set tail"
        then show False using tail by (auto simp: blockTail_def)
      next
        assume "UpdateRecentRepairTime i f \<in> set rest"
        from later[OF this, of i] show False by simp
      qed
    qed
    then show ?thesis using Nil same post by (auto simp: stampRecentRepair_def)
  next
    case (Cons p pre')
    then have p: "p = Popped i c0"
      and eq: "(stampRecentRepair env i c0 @ tail) @ rest = pre' @ Popped j c # post"
      using less.prems(2) evs by simp_all
    have notin: "Popped j c \<notin> set (stampRecentRepair env i c0 @ tail)"
      using tail by (auto simp: stampRecentRepair_def blockTail_def)
    from split_after_block[OF notin eq] obtain ps' where
      pre': "pre' = (stampRecentRepair env i c0 @ tail) @ ps'" and
      r: "rest = ps' @ Popped j c # post"
      by blast
    have inrest: "Popped j c \<in> set rest" using r by simp
    from later[OF inrest] have ji: "Suc i \<le> j" by simp
    from rest inrest obtain n' uh3 where
      rec: "managedRepairLoop env (Suc i) n' uh1 = (rest, uh3)"
      by force
    note ih = less.hyps[OF managedPop_shrinks[OF pop] rec r]
    have a: "MemoryRequest j c \<notin> set pre \<and> FetchAndRepairChunk j c \<notin> set pre"
      using ih tail ji Cons p pre' by (auto simp: stampRecentRepair_def blockTail_def)
    have b: "UpdateRecentRepairTime j f \<notin> set evs"
      if "\<not> CachedHealth env j (uuc_fileEntry c) < 0.8" for f
      using ih that tail ji evs by (auto simp: stampRecentRepair_def blockTail_def)
    show ?thesis using a b ih by blast
  qed
qed

lemma oneChunk_trace:
  "fst (managedRepairLoop (repairEnvOf h) 0 0 oneChunkHeap) =
     Popped 0 (testChunk ''f'' 0 False 0 1) #
     (if h < 0.8 then [UpdateRecentRepairTime 0 0] else []) @
     [MemoryRequest 0 (testChunk ''f'' 0 False 0 1),
      FetchAndRepairChunk 0 (testChunk ''f'' 0 False 0 1)]"
  by (simp add: managedRepairLoop.simps repairEnvOf_def oneChunkHeap_def heap_eval
        stampRecentRepair_def managedPrepareNextChunk_def)

theorem repair_time_stamped_below_threshold_witness:
  "fst (managedRepairLoop (repairEnvOf 0) 0 0 oneChunkHeap) =
     [] @ Popped 0 (testChunk ''f'' 0 False 0 1) #
     [UpdateRecentRepairTime 0 0, MemoryRequest 0 (testChunk ''f'' 0 False 0 1),
      FetchAndRepairChunk 0 (testChunk ''f'' 0 False 0 1)] \<and>
   CachedHealth (repairEnvOf 0) 0 (uuc_fileEntry (testChunk ''f'' 0 False 0 1)) < 0.8 \<and>
   (\<exists>post'. [UpdateRecentRepairTime 0 0, MemoryRequest 0 (testChunk ''f'' 0 False 0 1),
              FetchAndRepairChunk 0 (testChunk ''f'' 0 False 0 1)] =
             UpdateRecentRepairTime 0 (uuc_fileEntry (testChunk ''f'' 0 False 0 1)) # post')"
proof -
  let ?c = "testChunk ''f'' 0 False 0 1"
  let ?post = "[UpdateRecentRepairTime 0 0, MemoryRequest 0 ?c, FetchAndRepairChunk 0 ?c]"
  obtain evs uh2 where run: "managedRepairLoop (repairEnvOf 0) 0 0 oneChunkHeap = (evs, uh2)"
    by force
  have evs: "evs = [] @ Popped 0 ?c # ?post" using oneChunk_trace[of 0] run by simp
  have h: "CachedHealth (repairEnvOf 0) 0 (uuc_fileEntry ?c) < 0.8"
    by (simp add: repairEnvOf_def)
  from repair_time_stamped_below_threshold[OF run evs] h
  have "\<exists>post'. ?post = UpdateRecentRepairTime 0 (uuc_fileEntry ?c) # post'" by blast
  then show ?thesis using evs run h by simp
qed

theorem healthy_chunk_not_stamped_counterexample:
  "fst (managedRepairLoop (repairEnvOf 1) 0 0 oneChunkHeap) =
     [Popped 0 (testChunk ''f'' 0 False 0 1), MemoryRequest 0 (testChunk ''f'' 0 False 0 1),
      FetchAndRepairChunk 0 (testChunk ''f'' 0 False 0 1)] \<and>
   (0.8 :: real) \<le> CachedHealth (repairEnvOf 1) 0 (uuc_fileEntry (testChunk ''f'' 0 False 0 1))"
  using oneChunk_trace[of 1] by (simp add: repairEnvOf_def)

end
